theory Spec2Isabelle
  imports Main
begin

section \<open>Python strings and character classes\<close>

text \<open>
  A Python \<open>str\<close> is a sequence of Unicode code points. A code point is a natural number,
  a string a list of them. \<open>ustr\<close> reads an ASCII literal as such a string.
\<close>

type_synonym codepoint = nat
type_synonym pystr = "codepoint list"

definition ustr :: "string \<Rightarrow> pystr" where
  "ustr s = map of_char s"

text \<open>
  The classes \<open>\s\<close> and \<open>\d\<close> of \<open>re\<close> on a \<open>str\<close> pattern, and the characters that
  \<open>str.strip()\<close> removes, come from the interpreter's Unicode database. On ASCII they are
  fixed: whitespace is TAB, LF, VT, FF, CR, FS, GS, RS, US and the space; the decimal digits
  are \<open>0\<close> to \<open>9\<close>. Beyond ASCII the database of the running interpreter decides; it is not
  part of the script, so it is a parameter \<open>U\<close> that gives each such code point its class.
\<close>

datatype uclass = USpace | UDecimal | UOther

type_synonym ucd = "codepoint \<Rightarrow> uclass"

definition isspace :: "ucd \<Rightarrow> codepoint \<Rightarrow> bool" where
  "isspace U c =
     (if c < 128 then (9 \<le> c \<and> c \<le> 13) \<or> (28 \<le> c \<and> c \<le> 32)
      else U c = USpace)"

definition isdecimal :: "ucd \<Rightarrow> codepoint \<Rightarrow> bool" where
  "isdecimal U c = (if c < 128 then 48 \<le> c \<and> c \<le> 57 else U c = UDecimal)"

text \<open>
  An excerpt of the database, for evaluating examples: the whitespace beyond ASCII
  (NEL, NBSP, the Ogham space mark, the spaces U+2000 to U+200A, the line and paragraph
  separators, U+202F, U+205F, the ideographic space) and the Arabic-Indic digits.
\<close>

definition ucd_excerpt :: ucd where
  "ucd_excerpt c =
     (if c = 0x85 \<or> c = 0xA0 \<or> c = 0x1680 \<or> (0x2000 \<le> c \<and> c \<le> 0x200A) \<or> c = 0x2028 \<or>
         c = 0x2029 \<or> c = 0x202F \<or> c = 0x205F \<or> c = 0x3000 then USpace
      else if 0x660 \<le> c \<and> c \<le> 0x669 then UDecimal
      else UOther)"

section \<open>The two patterns of \<open>re.match\<close>\<close>

text \<open>
  The script's patterns are \<open>^(\s*)[-*+]\s\<close> and \<open>^(\s*)\d+\.\s\<close>: a sequence of items, each
  the start anchor or a character class taken once, any number of times, or at least once.
  The group only captures, and the script uses the match for its truth value alone.
\<close>

datatype cclass = Space | Digit | OneOf pystr | Lit codepoint

datatype rx = Bol | One cclass | Star cclass | Plus cclass

fun in_class :: "ucd \<Rightarrow> cclass \<Rightarrow> codepoint \<Rightarrow> bool" where
  "in_class U Space c = isspace U c"
| "in_class U Digit c = isdecimal U c"
| "in_class U (OneOf cs) c = (c \<in> set cs)"
| "in_class U (Lit d) c = (c = d)"

text \<open>
  \<open>rx_here U b r s\<close>: the items \<open>r\<close> match a prefix of \<open>s\<close>, where \<open>b\<close> says that \<open>s\<close> is
  the whole subject (no character consumed yet). A repetition first tries to take one more
  character and falls back to taking none, as the backtracking matcher does; a match object
  is returned exactly when some way of matching succeeds.
\<close>

fun rx_here :: "ucd \<Rightarrow> bool \<Rightarrow> rx list \<Rightarrow> pystr \<Rightarrow> bool" where
  "rx_here U b [] s = True"
| "rx_here U b (Bol # r) s = (b \<and> rx_here U b r s)"
| "rx_here U b (One k # r) [] = False"
| "rx_here U b (One k # r) (c # s) = (in_class U k c \<and> rx_here U False r s)"
| "rx_here U b (Star k # r) [] = rx_here U b r []"
| "rx_here U b (Star k # r) (c # s) =
     ((in_class U k c \<and> rx_here U False (Star k # r) s) \<or> rx_here U b r (c # s))"
| "rx_here U b (Plus k # r) [] = False"
| "rx_here U b (Plus k # r) (c # s) = (in_class U k c \<and> rx_here U False (Star k # r) s)"

text \<open>\<open>re.match(pattern, line)\<close> as a truth value: a match at the start of the line.\<close>

definition re_match :: "ucd \<Rightarrow> rx list \<Rightarrow> pystr \<Rightarrow> bool" where
  "re_match U r line = rx_here U True r line"

definition bullet_rx :: "rx list" where
  "bullet_rx = [Bol, Star Space, One (OneOf (ustr ''-*+'')), One Space]"

definition number_rx :: "rx list" where
  "number_rx = [Bol, Star Space, Plus Digit, One (Lit (of_char CHR ''.'')), One Space]"

text \<open>The condition of the outer \<open>if\<close> of the loop body.\<close>

definition is_list_item :: "ucd \<Rightarrow> pystr \<Rightarrow> bool" where
  "is_list_item U line = (re_match U bullet_rx line \<or> re_match U number_rx line)"

text \<open>\<open>line.strip()\<close>: whitespace removed at both ends.\<close>

definition strip :: "ucd \<Rightarrow> pystr \<Rightarrow> pystr" where
  "strip U s = rev (dropWhile (isspace U) (rev (dropWhile (isspace U) s)))"

definition blank :: "ucd \<Rightarrow> pystr \<Rightarrow> bool" where
  "blank U line = (strip U line = [])"

section \<open>The scan of the lines\<close>

text \<open>
  The body of \<open>for i, line in enumerate(lines)\<close>, on the pair \<open>(result_lines, modified)\<close>.
  \<open>lines[i-1]\<close> is only evaluated when \<open>i > 0\<close>, and \<open>i\<close> is an index of \<open>lines\<close>, so the
  read is in range.
\<close>

definition LF :: codepoint where "LF = 10"
definition CR :: codepoint where "CR = 13"

definition loop_body ::
    "ucd \<Rightarrow> pystr list \<Rightarrow> nat \<times> pystr \<Rightarrow> pystr list \<times> bool \<Rightarrow> pystr list \<times> bool" where
  "loop_body U lines = (\<lambda>(i, line) (result_lines, modified).
     if is_list_item U line then
       (if 0 < i \<and> strip U (lines ! (i - 1)) \<noteq> []
        then (result_lines @ [[LF]] @ [line], True)
        else (result_lines @ [line], modified))
     else (result_lines @ [line], modified))"

definition scan_lines :: "ucd \<Rightarrow> pystr list \<Rightarrow> pystr list \<times> bool" where
  "scan_lines U lines = fold (loop_body U lines) (enumerate 0 lines) ([], False)"

section \<open>Files\<close>

text \<open>
  A file holds either the UTF-8 encoding of a sequence of code points or bytes that do not
  decode as UTF-8; it may be closed to reading or to writing. The state of a run is the
  files by path (\<open>disk\<close>) and the trace of what the run opened and printed.
\<close>

datatype contents = Utf8 pystr | Undecodable

record inode =
  contents :: contents
  readable :: bool
  writable :: bool

datatype event = Open_read pystr | Open_write pystr | Print pystr

record state =
  disk :: "pystr \<rightharpoonup> inode"
  trace :: "event list"

datatype error = FileNotFoundError | PermissionError | UnicodeDecodeError

type_synonym 'a result = "(error \<times> state) + ('a \<times> state)"

text \<open>
  Text mode with the default \<open>newline=None\<close>: on reading, \<open>\r\n\<close> and a lone \<open>\r\<close> become
  \<open>\n\<close>; \<open>readlines\<close> then cuts after every \<open>\n\<close>, keeping it. On writing, \<open>\n\<close> becomes
  \<open>os.linesep\<close>, which is \<open>\n\<close> itself on POSIX, the platform modelled here.
\<close>

fun universal_newlines :: "pystr \<Rightarrow> pystr" where
  "universal_newlines [] = []"
| "universal_newlines [c] = [if c = CR then LF else c]"
| "universal_newlines (c # d # s) =
     (if c = CR \<and> d = LF then LF # universal_newlines s
      else if c = CR then LF # universal_newlines (d # s)
      else c # universal_newlines (d # s))"

fun readlines :: "pystr \<Rightarrow> pystr list" where
  "readlines [] = []"
| "readlines (c # s) =
     (if c = LF then [c] # readlines s
      else (case readlines s of [] \<Rightarrow> [[c]] | l # ls \<Rightarrow> (c # l) # ls))"

definition writelines :: "pystr list \<Rightarrow> pystr" where
  "writelines ls = concat ls"

definition open_read :: "pystr \<Rightarrow> state \<Rightarrow> pystr list result" where
  "open_read p st =
     (let st' = st\<lparr>trace := trace st @ [Open_read p]\<rparr> in
      case disk st p of
        None \<Rightarrow> Inl (FileNotFoundError, st')
      | Some f \<Rightarrow>
          if \<not> readable f then Inl (PermissionError, st')
          else (case contents f of
                  Undecodable \<Rightarrow> Inl (UnicodeDecodeError, st')
                | Utf8 s \<Rightarrow> Inr (readlines (universal_newlines s), st')))"

text \<open>
  Opening for writing truncates an existing file, or creates the file; the lines are then
  written out.
\<close>

definition open_write :: "pystr \<Rightarrow> pystr list \<Rightarrow> state \<Rightarrow> unit result" where
  "open_write p ls st =
     (let st' = st\<lparr>trace := trace st @ [Open_write p]\<rparr> in
      case disk st p of
        None \<Rightarrow>
          Inr ((), st'\<lparr>disk := (disk st)(p \<mapsto>
                 \<lparr>contents = Utf8 (writelines ls), readable = True, writable = True\<rparr>)\<rparr>)
      | Some f \<Rightarrow>
          if \<not> writable f then Inl (PermissionError, st')
          else Inr ((), st'\<lparr>disk := (disk st)(p \<mapsto> f\<lparr>contents := Utf8 (writelines ls)\<rparr>)\<rparr>))"

definition message :: "pystr \<Rightarrow> pystr" where
  "message file_path = ustr ''Fixed MD032 errors in '' @ file_path"

definition fix_md032_in_file :: "ucd \<Rightarrow> pystr \<Rightarrow> state \<Rightarrow> bool result" where
  "fix_md032_in_file U file_path st =
     (case open_read file_path st of
        Inl e \<Rightarrow> Inl e
      | Inr (lines, st1) \<Rightarrow>
          (case scan_lines U lines of (result_lines, modified) \<Rightarrow>
             if modified then
               (case open_write file_path result_lines st1 of
                  Inl e \<Rightarrow> Inl e
                | Inr (_, st2) \<Rightarrow>
                    Inr (True, st2\<lparr>trace := trace st2 @ [Print (message file_path)]\<rparr>))
             else Inr (False, st1)))"

section \<open>The walk\<close>

text \<open>
  A directory: its subdirectories by name and the names of its other entries, in the order
  the operating system lists them. \<open>os.walk\<close> yields, top down, the triple of each
  directory; it yields nothing when the top cannot be listed (without \<open>onerror\<close> the error
  is dropped).
\<close>

datatype dir = Dir "(pystr \<times> dir) list" "pystr list"

definition sep :: pystr where "sep = ustr ''/''"

definition startswith :: "pystr \<Rightarrow> pystr \<Rightarrow> bool" where
  "startswith s pre = (take (length pre) s = pre)"

definition endswith :: "pystr \<Rightarrow> pystr \<Rightarrow> bool" where
  "endswith s suf = (length suf \<le> length s \<and> drop (length s - length suf) s = suf)"

definition os_path_join :: "pystr \<Rightarrow> pystr \<Rightarrow> pystr" where
  "os_path_join a b =
     (if startswith b sep then b
      else if a = [] \<or> endswith a sep then a @ b
      else a @ sep @ b)"

fun os_walk :: "pystr \<Rightarrow> dir \<Rightarrow> (pystr \<times> pystr list \<times> pystr list) list" where
  "os_walk top_dir (Dir ds fs) =
     (top_dir, map fst ds, fs) #
     concat (map (\<lambda>(name, d). os_walk (os_path_join top_dir name) d) ds)"

text \<open>
  The inner loop over \<open>files\<close> and the outer loop over the triples. The value that
  \<open>fix_md032_in_file\<close> returns is dropped; an error leaves both loops.
\<close>

fun files_loop :: "ucd \<Rightarrow> pystr \<Rightarrow> pystr list \<Rightarrow> state \<Rightarrow> (error \<times> state) + state" where
  "files_loop U root [] st = Inr st"
| "files_loop U root (file # rest) st =
     (if endswith file (ustr ''.md'') then
        (case fix_md032_in_file U (os_path_join root file) st of
           Inl e \<Rightarrow> Inl e
         | Inr (_, st') \<Rightarrow> files_loop U root rest st')
      else files_loop U root rest st)"

fun walk_loop ::
    "ucd \<Rightarrow> (pystr \<times> pystr list \<times> pystr list) list \<Rightarrow> state \<Rightarrow> (error \<times> state) + state" where
  "walk_loop U [] st = Inr st"
| "walk_loop U ((root, dirs, files) # rest) st =
     (case files_loop U root files st of
        Inl e \<Rightarrow> Inl e
      | Inr st' \<Rightarrow> walk_loop U rest st')"

text \<open>
  The script: the walk starts at the fixed path \<open>docs\<close>; the argument \<open>docs\<close> is the directory
  of that name in the working directory, if there is one.
\<close>

definition os_walk_docs :: "dir option \<Rightarrow> (pystr \<times> pystr list \<times> pystr list) list" where
  "os_walk_docs docs = (case docs of None \<Rightarrow> [] | Some d \<Rightarrow> os_walk (ustr ''docs'') d)"

definition main :: "ucd \<Rightarrow> dir option \<Rightarrow> state \<Rightarrow> (error \<times> state) + state" where
  "main U docs st = walk_loop U (os_walk_docs docs) st"

section \<open>The specification's wording\<close>

text \<open>
  The list-item pattern as the specification words it: after the leading whitespace, the
  line starts with one of \<open>-\<close>, \<open>*\<close>, \<open>+\<close> followed by whitespace, or with one or more
  digits followed by \<open>.\<close> and whitespace.
\<close>

definition spec_list_item :: "ucd \<Rightarrow> pystr \<Rightarrow> bool" where
  "spec_list_item U line =
     (let s = dropWhile (isspace U) line;
          t = dropWhile (isdecimal U) s
      in (case s of
            c # w # _ \<Rightarrow> c \<in> set (ustr ''-*+'') \<and> isspace U w
          | _ \<Rightarrow> False) \<or>
         (takeWhile (isdecimal U) s \<noteq> [] \<and>
          (case t of
             c # w # _ \<Rightarrow> c = of_char CHR ''.'' \<and> isspace U w
           | _ \<Rightarrow> False)))"

section \<open>The scan, by recursion on the lines\<close>

text \<open>
  For the proofs, the scan is also written as a recursion that carries the previous line
  (the empty string before the first line, which is blank): \<open>with_blanks\<close> is the list it
  builds and \<open>settled\<close> says that it inserts nothing. \<open>triggers\<close> is the condition of the
  insertion at index \<open>i\<close>, \<open>piece\<close> what line \<open>i\<close> adds to the result, and \<open>new_pos\<close> the
  index of line \<open>i\<close> in the result.
\<close>

fun with_blanks :: "ucd \<Rightarrow> pystr \<Rightarrow> pystr list \<Rightarrow> pystr list" where
  "with_blanks U prev [] = []"
| "with_blanks U prev (l # ls) =
     (if is_list_item U l \<and> \<not> blank U prev then [[LF], l] else [l]) @ with_blanks U l ls"

fun settled :: "ucd \<Rightarrow> pystr \<Rightarrow> pystr list \<Rightarrow> bool" where
  "settled U prev [] = True"
| "settled U prev (l # ls) = (\<not> (is_list_item U l \<and> \<not> blank U prev) \<and> settled U l ls)"

definition prev_of :: "pystr list \<Rightarrow> pystr" where
  "prev_of pre = (if pre = [] then [] else last pre)"

definition triggers :: "ucd \<Rightarrow> pystr list \<Rightarrow> nat \<Rightarrow> bool" where
  "triggers U lines i =
     (is_list_item U (lines ! i) \<and> 0 < i \<and> \<not> blank U (lines ! (i - 1)))"

definition piece :: "ucd \<Rightarrow> pystr list \<Rightarrow> nat \<Rightarrow> pystr list" where
  "piece U lines i = (if triggers U lines i then [[LF], lines ! i] else [lines ! i])"

definition new_pos :: "ucd \<Rightarrow> pystr list \<Rightarrow> nat \<Rightarrow> nat" where
  "new_pos U lines i = i + length (filter (triggers U lines) [0..<Suc i])"

definition ex_lines :: "pystr list" where
  "ex_lines = [ustr ''Some text\<newline>'', ustr ''- item one\<newline>'', ustr ''- item two\<newline>'']"

section \<open>Notions for the properties of a run\<close>

text \<open>
  \<open>line_seq\<close>: a list of lines as \<open>readlines\<close> returns it (no line is empty, a newline only
  ends a line, every line but the last ends with one). \<open>logged\<close> adds events to the trace;
  \<open>rewritten\<close> is the state after a file was read, overwritten with the given lines and
  reported.
\<close>

fun line_seq :: "pystr list \<Rightarrow> bool" where
  "line_seq [] = True"
| "line_seq [l] = (l \<noteq> [] \<and> LF \<notin> set (butlast l))"
| "line_seq (l # l' # ls) =
     (l \<noteq> [] \<and> LF \<notin> set (butlast l) \<and> last l = LF \<and> line_seq (l' # ls))"

definition logged :: "state \<Rightarrow> event list \<Rightarrow> state" where
  "logged st evs = st\<lparr>trace := trace st @ evs\<rparr>"

definition rewritten :: "state \<Rightarrow> pystr \<Rightarrow> inode \<Rightarrow> pystr list \<Rightarrow> state" where
  "rewritten st p f ls =
     \<lparr>disk = (disk st)(p \<mapsto> f\<lparr>contents := Utf8 (writelines ls)\<rparr>),
      trace = trace st @ [Open_read p, Open_write p, Print (message p)]\<rparr>"

text \<open>
  \<open>selected\<close>: the paths that the two loops hand to \<open>fix_md032_in_file\<close>, in order;
  \<open>process_all\<close>: the calls on a list of paths, stopping at the first error. \<open>good\<close>: the
  file at a path can be read and the scan inserts nothing into it. \<open>opened\<close> is the path an
  event opens, \<open>printed\<close> the lines printed so far, \<open>final\<close> the state in which a run ends,
  with or without an error. \<open>touches_only P\<close>: between two states only paths of \<open>P\<close> were
  opened and only their files differ.
\<close>

fun process_all :: "ucd \<Rightarrow> pystr list \<Rightarrow> state \<Rightarrow> (error \<times> state) + state" where
  "process_all U [] st = Inr st"
| "process_all U (p # ps) st =
     (case fix_md032_in_file U p st of
        Inl e \<Rightarrow> Inl e
      | Inr (_, st') \<Rightarrow> process_all U ps st')"

definition selected :: "(pystr \<times> pystr list \<times> pystr list) list \<Rightarrow> pystr list" where
  "selected w =
     concat (map (\<lambda>(root, dirs, files).
       map (os_path_join root) (filter (\<lambda>file. endswith file (ustr ''.md'')) files)) w)"

definition good :: "ucd \<Rightarrow> state \<Rightarrow> pystr \<Rightarrow> bool" where
  "good U st p =
     (case disk st p of
        None \<Rightarrow> False
      | Some f \<Rightarrow>
          readable f \<and>
          (case contents f of
             Undecodable \<Rightarrow> False
           | Utf8 s \<Rightarrow> settled U [] (readlines (universal_newlines s))))"

fun opened :: "event \<Rightarrow> pystr list" where
  "opened (Open_read p) = [p]"
| "opened (Open_write p) = [p]"
| "opened (Print m) = []"

fun printed_by :: "event \<Rightarrow> pystr list" where
  "printed_by (Print m) = [m]"
| "printed_by e = []"

definition printed :: "state \<Rightarrow> pystr list" where
  "printed st = concat (map printed_by (trace st))"

definition final :: "(error \<times> state) + state \<Rightarrow> state" where
  "final r = (case r of Inl (e, st) \<Rightarrow> st | Inr st \<Rightarrow> st)"

definition touches_only :: "pystr set \<Rightarrow> state \<Rightarrow> state \<Rightarrow> bool" where
  "touches_only P st st' =
     ((\<exists>evs. trace st' = trace st @ evs \<and> (\<forall>e\<in>set evs. set (opened e) \<subseteq> P)) \<and>
      (\<forall>q. q \<notin> P \<longrightarrow> disk st' q = disk st q))"

section \<open>Examples\<close>

text \<open>
  The first scenario of the specification: a file with a paragraph line and two adjacent
  list items, and what the script makes of it. \<open>file_of\<close> is a file with the given text that
  may be read and written.
\<close>

definition ex_input :: pystr where
  "ex_input = ustr ''Some text\<newline>- item one\<newline>- item two\<newline>''"

definition ex_output :: pystr where
  "ex_output = ustr ''Some text\<newline>\<newline>- item one\<newline>\<newline>- item two\<newline>''"

definition file_of :: "pystr \<Rightarrow> inode" where
  "file_of s = \<lparr>contents = Utf8 s, readable = True, writable = True\<rparr>"

text \<open>
  A directory \<open>docs\<close> with \<open>a.md\<close>, \<open>notes.txt\<close> and \<open>X.MD\<close>, all three holding the scenario's
  input, and a subdirectory \<open>sub\<close> with \<open>b.md\<close>, whose only line is a list item. \<open>ex_mid\<close> is
  the state after the call on \<open>docs/a.md\<close>, \<open>ex_after\<close> the state after the run.
\<close>

definition ex_tree :: dir where
  "ex_tree = Dir [(ustr ''sub'', Dir [] [ustr ''b.md''])]
                 [ustr ''a.md'', ustr ''notes.txt'', ustr ''X.MD'']"

definition ex_state :: state where
  "ex_state =
     \<lparr>disk = [ustr ''docs/a.md'' \<mapsto> file_of ex_input,
              ustr ''docs/notes.txt'' \<mapsto> file_of ex_input,
              ustr ''docs/X.MD'' \<mapsto> file_of ex_input,
              ustr ''docs/sub/b.md'' \<mapsto> file_of (ustr ''- item\<newline>'')],
      trace = []\<rparr>"

definition ex_mid :: state where
  "ex_mid =
     \<lparr>disk = (disk ex_state)(ustr ''docs/a.md'' \<mapsto> file_of ex_output),
      trace = [Open_read (ustr ''docs/a.md''), Open_write (ustr ''docs/a.md''),
               Print (message (ustr ''docs/a.md''))]\<rparr>"

definition ex_after :: state where
  "ex_after =
     \<lparr>disk = (disk ex_state)(ustr ''docs/a.md'' \<mapsto> file_of ex_output),
      trace = [Open_read (ustr ''docs/a.md''), Open_write (ustr ''docs/a.md''),
               Print (message (ustr ''docs/a.md'')), Open_read (ustr ''docs/sub/b.md'')]\<rparr>"

text \<open>A file whose only line is a list item.\<close>

definition ex_first :: state where
  "ex_first = \<lparr>disk = [ustr ''docs/a.md'' \<mapsto> file_of (ustr ''- item\<newline>'')], trace = []\<rparr>"

text \<open>
  A file whose lines end with a carriage return and a newline, and what the script writes
  back.
\<close>

definition crlf_input :: pystr where
  "crlf_input = ustr ''Some text'' @ [CR, LF] @ ustr ''- item'' @ [CR, LF]"

definition crlf_output :: pystr where
  "crlf_output = ustr ''Some text\<newline>\<newline>- item\<newline>''"

definition crlf_state :: state where
  "crlf_state = \<lparr>disk = [ustr ''docs/a.md'' \<mapsto> file_of crlf_input], trace = []\<rparr>"

definition crlf_after :: state where
  "crlf_after =
     \<lparr>disk = [ustr ''docs/a.md'' \<mapsto> file_of crlf_output],
      trace = [Open_read (ustr ''docs/a.md''), Open_write (ustr ''docs/a.md''),
               Print (message (ustr ''docs/a.md''))]\<rparr>"

text \<open>
  A directory \<open>docs\<close> whose second Markdown file does not decode as UTF-8; \<open>bad_mid\<close> is the
  state after the call on the first file, \<open>bad_after\<close> the state in which the run ends.
\<close>

definition bad_tree :: dir where
  "bad_tree = Dir [] [ustr ''a.md'', ustr ''bad.md'', ustr ''c.md'']"

definition bad_state :: state where
  "bad_state =
     \<lparr>disk = [ustr ''docs/a.md'' \<mapsto> file_of ex_input,
              ustr ''docs/bad.md'' \<mapsto> \<lparr>contents = Undecodable, readable = True, writable = True\<rparr>,
              ustr ''docs/c.md'' \<mapsto> file_of ex_input],
      trace = []\<rparr>"

definition bad_mid :: state where
  "bad_mid =
     \<lparr>disk = (disk bad_state)(ustr ''docs/a.md'' \<mapsto> file_of ex_output),
      trace = [Open_read (ustr ''docs/a.md''), Open_write (ustr ''docs/a.md''),
               Print (message (ustr ''docs/a.md''))]\<rparr>"

definition bad_after :: state where
  "bad_after =
     \<lparr>disk = (disk bad_state)(ustr ''docs/a.md'' \<mapsto> file_of ex_output),
      trace = [Open_read (ustr ''docs/a.md''), Open_write (ustr ''docs/a.md''),
               Print (message (ustr ''docs/a.md'')), Open_read (ustr ''docs/bad.md'')]\<rparr>"

section \<open>Properties of the patterns\<close>

lemma star_then_One:
  assumes disj: "\<And>c. in_class U k c \<Longrightarrow> \<not> in_class U k' c"
  shows "rx_here U b (Star k # One k' # r) s =
         rx_here U False (One k' # r) (dropWhile (in_class U k) s)"
proof (induction s arbitrary: b)
  case Nil
  show ?case by simp
next
  case (Cons c s)
  show ?case
  proof (cases "in_class U k c")
    case True
    with disj have "\<not> in_class U k' c" by blast
    with True Cons show ?thesis by simp
  next
    case False
    then show ?thesis by simp
  qed
qed

lemma star_then_Plus:
  assumes disj: "\<And>c. in_class U k c \<Longrightarrow> \<not> in_class U k' c"
  shows "rx_here U b (Star k # Plus k' # r) s =
         rx_here U False (Plus k' # r) (dropWhile (in_class U k) s)"
proof (induction s arbitrary: b)
  case Nil
  show ?case by simp
next
  case (Cons c s)
  show ?case
  proof (cases "in_class U k c")
    case True
    with disj have "\<not> in_class U k' c" by blast
    with True Cons show ?thesis by simp
  next
    case False
    then show ?thesis by simp
  qed
qed

lemma space_not_marker: "isspace U c \<Longrightarrow> c \<notin> set (ustr ''-*+'')"
  by (auto simp: isspace_def ustr_def split: if_splits)

lemma space_not_decimal: "isspace U c \<Longrightarrow> \<not> isdecimal U c"
  by (auto simp: isspace_def isdecimal_def split: if_splits)

lemma decimal_not_dot: "isdecimal U c \<Longrightarrow> c \<noteq> of_char CHR ''.''"
  by (auto simp: isdecimal_def split: if_splits)

lemma in_class_Space: "in_class U Space = isspace U"
  by (rule ext) simp

lemma in_class_Digit: "in_class U Digit = isdecimal U"
  by (rule ext) simp

lemma marker_then_space:
  "rx_here U False [One (OneOf m), One Space] t =
   (case t of c # w # _ \<Rightarrow> c \<in> set m \<and> isspace U w | _ \<Rightarrow> False)"
  by (simp split: list.splits)

lemma dot_then_space:
  "rx_here U False [One (Lit d), One Space] t =
   (case t of c # w # _ \<Rightarrow> c = d \<and> isspace U w | _ \<Rightarrow> False)"
  by (simp split: list.splits)

lemma bullet_rx_iff:
  "re_match U bullet_rx line =
   (case dropWhile (isspace U) line of
      c # w # _ \<Rightarrow> c \<in> set (ustr ''-*+'') \<and> isspace U w
    | _ \<Rightarrow> False)"
proof -
  have "re_match U bullet_rx line =
        rx_here U True [Star Space, One (OneOf (ustr ''-*+'')), One Space] line"
    by (simp add: re_match_def bullet_rx_def)
  also have "\<dots> = rx_here U False [One (OneOf (ustr ''-*+'')), One Space]
                     (dropWhile (in_class U Space) line)"
    by (rule star_then_One) (simp add: space_not_marker)
  finally show ?thesis
    unfolding marker_then_space in_class_Space .
qed

lemma number_rx_iff:
  "re_match U number_rx line =
   (takeWhile (isdecimal U) (dropWhile (isspace U) line) \<noteq> [] \<and>
    (case dropWhile (isdecimal U) (dropWhile (isspace U) line) of
       c # w # _ \<Rightarrow> c = of_char CHR ''.'' \<and> isspace U w | _ \<Rightarrow> False))"
proof -
  define s where "s = dropWhile (isspace U) line"
  define dot :: codepoint where "dot = of_char CHR ''.''"
  have dot: "isdecimal U c \<Longrightarrow> c \<noteq> dot" for c
    unfolding dot_def by (rule decimal_not_dot)
  have "re_match U number_rx line =
        rx_here U True [Star Space, Plus Digit, One (Lit dot), One Space] line"
    by (simp add: re_match_def number_rx_def dot_def)
  also have "\<dots> = rx_here U False [Plus Digit, One (Lit dot), One Space]
                     (dropWhile (in_class U Space) line)"
    by (rule star_then_Plus) (simp add: space_not_decimal)
  finally have 1: "re_match U number_rx line =
        rx_here U False [Plus Digit, One (Lit dot), One Space] s"
    by (simp add: in_class_Space s_def)
  have 2: "rx_here U False [Plus Digit, One (Lit dot), One Space] s =
        (takeWhile (isdecimal U) s \<noteq> [] \<and>
         rx_here U False [One (Lit dot), One Space] (dropWhile (isdecimal U) s))"
  proof (cases s)
    case Nil
    then show ?thesis by simp
  next
    case (Cons c t)
    have "rx_here U False [Star Digit, One (Lit dot), One Space] t =
          rx_here U False [One (Lit dot), One Space] (dropWhile (in_class U Digit) t)"
      by (rule star_then_One) (simp add: dot)
    with Cons show ?thesis by (simp add: in_class_Digit)
  qed
  show ?thesis
    unfolding 1 2 dot_then_space unfolding s_def dot_def ..
qed

lemma list_item_iff: "is_list_item U line = spec_list_item U line"
  unfolding is_list_item_def spec_list_item_def bullet_rx_iff number_rx_iff Let_def ..

text \<open>
  Claim C4. A line is a list-item line exactly when, after its leading whitespace, it starts
  with \<open>-\<close>, \<open>*\<close> or \<open>+\<close> and a whitespace character, or with one or more digits, \<open>.\<close> and a
  whitespace character; the indentation plays no part: the line and the line without its
  leading whitespace are classified alike.
\<close>

theorem C4_list_item_pattern:
  "is_list_item U line = spec_list_item U line \<and>
   is_list_item U (dropWhile (isspace U) line) = is_list_item U line"
proof
  show "is_list_item U line = spec_list_item U line"
    by (rule list_item_iff)
  have "spec_list_item U (dropWhile (isspace U) line) = spec_list_item U line"
    by (simp add: spec_list_item_def)
  then show "is_list_item U (dropWhile (isspace U) line) = is_list_item U line"
    by (simp only: list_item_iff)
qed

lemma decimal_not_marker: "isdecimal U c \<Longrightarrow> c \<notin> set (ustr ''-*+'')"
  by (auto simp: isdecimal_def ustr_def split: if_splits)

lemma isspace_LF: "isspace U LF"
  by (simp add: isspace_def LF_def)

lemma marker_line:
  assumes "c \<in> set (ustr ''-*+'')"
  shows "is_list_item U [c, LF]" and "\<not> is_list_item U [c]"
proof -
  from assms have ns: "\<not> isspace U c"
    using space_not_marker by blast
  from ns assms show "is_list_item U [c, LF]"
    by (simp add: list_item_iff spec_list_item_def isspace_LF)
  from ns show "\<not> is_list_item U [c]"
    by (simp add: list_item_iff spec_list_item_def)
qed

lemma number_line:
  assumes ne: "ds \<noteq> []" and dec: "\<forall>d\<in>set ds. isdecimal U d"
  shows "is_list_item U (ds @ [of_char CHR ''.'', LF])"
    and "\<not> is_list_item U (ds @ [of_char CHR ''.''])"
proof -
  obtain d ds' where ds: "ds = d # ds'"
    using ne by (cases ds) auto
  with dec have d: "isdecimal U d" by simp
  then have nsp: "\<not> isspace U d"
    using space_not_decimal by blast
  from d have nm: "d \<notin> set (ustr ''-*+'')"
    by (rule decimal_not_marker)
  have nd: "\<not> isdecimal U 46"
    by (simp add: isdecimal_def)
  have dw: "dropWhile (isspace U) (ds @ r) = ds @ r" for r
    using nsp by (simp add: ds)
  have tw: "takeWhile (isdecimal U) (ds @ of_char CHR ''.'' # r) = ds" for r
    using dec by (simp add: takeWhile_tail nd)
  have dd: "dropWhile (isdecimal U) (ds @ of_char CHR ''.'' # r) = of_char CHR ''.'' # r" for r
    using dec by (simp add: dropWhile_append2 nd)
  show "is_list_item U (ds @ [of_char CHR ''.'', LF])"
    unfolding list_item_iff spec_list_item_def Let_def dw tw dd
    using ne by (simp add: isspace_LF)
  have "\<not> (case ds @ [of_char CHR ''.''] of
            c # w # _ \<Rightarrow> c \<in> set (ustr ''-*+'') \<and> isspace U w | _ \<Rightarrow> False)"
    using nm by (simp add: ds split: list.splits)
  then show "\<not> is_list_item U (ds @ [of_char CHR ''.''])"
    unfolding list_item_iff spec_list_item_def Let_def dw tw dd
    by simp
qed

text \<open>
  Claim C10. A marker followed at once by the newline is a list-item line, since the newline
  is itself in the whitespace class: so for each of \<open>-\<close>, \<open>*\<close>, \<open>+\<close>, and for every non-empty
  run of digits followed by \<open>.\<close> (the lines \<open>-\<close>, \<open>*\<close>, \<open>+\<close> and \<open>1.\<close> with their newline among
  them). The same marker with nothing after it, as on a last line without terminator, is
  not a list-item line.
\<close>

theorem C10_marker_before_newline:
  "(c \<in> set (ustr ''-*+'') \<longrightarrow> is_list_item U [c, LF] \<and> \<not> is_list_item U [c]) \<and>
   (ds \<noteq> [] \<and> (\<forall>d\<in>set ds. isdecimal U d) \<longrightarrow>
      is_list_item U (ds @ [of_char CHR ''.'', LF]) \<and>
      \<not> is_list_item U (ds @ [of_char CHR ''.''])) \<and>
   isspace U LF \<and>
   is_list_item U (ustr ''-\<newline>'') \<and> is_list_item U (ustr ''*\<newline>'') \<and>
   is_list_item U (ustr ''+\<newline>'') \<and> is_list_item U (ustr ''1.\<newline>'') \<and>
   \<not> is_list_item U (ustr ''-'') \<and> \<not> is_list_item U (ustr ''*'') \<and>
   \<not> is_list_item U (ustr ''+'') \<and> \<not> is_list_item U (ustr ''1.'')"
proof (intro conjI impI)
  assume "c \<in> set (ustr ''-*+'')"
  then show "is_list_item U [c, LF]" and "\<not> is_list_item U [c]"
    by (rule marker_line)+
next
  assume "ds \<noteq> [] \<and> (\<forall>d\<in>set ds. isdecimal U d)"
  then show "is_list_item U (ds @ [of_char CHR ''.'', LF])"
    and "\<not> is_list_item U (ds @ [of_char CHR ''.''])"
    using number_line by blast+
next
  show "isspace U LF" by (rule isspace_LF)
  show "is_list_item U (ustr ''-\<newline>'')" "is_list_item U (ustr ''*\<newline>'')"
    "is_list_item U (ustr ''+\<newline>'')" "is_list_item U (ustr ''1.\<newline>'')"
    "\<not> is_list_item U (ustr ''-'')" "\<not> is_list_item U (ustr ''*'')"
    "\<not> is_list_item U (ustr ''+'')" "\<not> is_list_item U (ustr ''1.'')"
    by (simp_all add: ustr_def is_list_item_def re_match_def bullet_rx_def number_rx_def
        isspace_def isdecimal_def)
qed

theorem C10_marker_before_newline_witness:
  "is_list_item ucd_excerpt (ustr ''+\<newline>'') \<and> \<not> is_list_item ucd_excerpt (ustr ''+'') \<and>
   is_list_item ucd_excerpt (ustr ''10.\<newline>'') \<and> \<not> is_list_item ucd_excerpt (ustr ''10.'')"
proof -
  note inst = C10_marker_before_newline [of "of_char CHR ''+''" ucd_excerpt "ustr ''10''"]
  have m: "of_char CHR ''+'' \<in> set (ustr ''-*+'')"
    by (simp add: ustr_def)
  have d: "ustr ''10'' \<noteq> [] \<and> (\<forall>d\<in>set (ustr ''10''). isdecimal ucd_excerpt d)"
    by (simp add: ustr_def isdecimal_def)
  have s: "[of_char CHR ''+'', LF] = ustr ''+\<newline>''" "[of_char CHR ''+''] = ustr ''+''"
    "ustr ''10'' @ [of_char CHR ''.'', LF] = ustr ''10.\<newline>''"
    "ustr ''10'' @ [of_char CHR ''.''] = ustr ''10.''"
    by (simp_all add: ustr_def LF_def)
  from inst m d have "is_list_item ucd_excerpt [of_char CHR ''+'', LF] \<and>
      \<not> is_list_item ucd_excerpt [of_char CHR ''+''] \<and>
      is_list_item ucd_excerpt (ustr ''10'' @ [of_char CHR ''.'', LF]) \<and>
      \<not> is_list_item ucd_excerpt (ustr ''10'' @ [of_char CHR ''.''])"
    by blast
  then show ?thesis
    unfolding s .
qed

section \<open>Properties of the scan\<close>

lemma blank_Nil: "blank U []"
  by (simp add: blank_def strip_def)

lemma blank_LF: "blank U [LF]"
  by (simp add: blank_def strip_def isspace_def LF_def)

lemma not_item_LF: "\<not> is_list_item U [LF]"
  by (simp add: is_list_item_def re_match_def bullet_rx_def number_rx_def
      isspace_def isdecimal_def LF_def ustr_def)

lemma loop_body_step:
  "loop_body U (pre @ l # ls) (length pre, l) (acc, m) =
   (acc @ (if is_list_item U l \<and> \<not> blank U (prev_of pre) then [[LF], l] else [l]),
    m \<or> (is_list_item U l \<and> \<not> blank U (prev_of pre)))"
proof (cases "pre = []")
  case True
  then show ?thesis
    by (simp add: loop_body_def prev_of_def blank_Nil)
next
  case False
  then have "(pre @ l # ls) ! (length pre - 1) = last pre"
    by (simp add: nth_append last_conv_nth)
  with False show ?thesis
    by (simp add: loop_body_def prev_of_def blank_def)
qed

lemma fold_loop_body:
  "fold (loop_body U (pre @ ls)) (enumerate (length pre) ls) (acc, m) =
   (acc @ with_blanks U (prev_of pre) ls, m \<or> \<not> settled U (prev_of pre) ls)"
proof (induction ls arbitrary: pre acc m)
  case Nil
  show ?case by simp
next
  case (Cons l ls)
  have "fold (loop_body U ((pre @ [l]) @ ls)) (enumerate (length (pre @ [l])) ls) st =
        (fst st @ with_blanks U l ls, snd st \<or> \<not> settled U l ls)" for st
    using Cons.IH [of "pre @ [l]" "fst st" "snd st"] by (simp add: prev_of_def)
  then have rest: "fold (loop_body U (pre @ l # ls)) (enumerate (Suc (length pre)) ls) st =
        (fst st @ with_blanks U l ls, snd st \<or> \<not> settled U l ls)" for st
    by simp
  show ?case
    by (simp add: loop_body_step rest)
qed

lemma scan_lines_eq:
  "scan_lines U lines = (with_blanks U [] lines, \<not> settled U [] lines)"
  using fold_loop_body [of U "[]" lines "[]" False]
  by (simp add: scan_lines_def prev_of_def)

lemma settled_with_blanks: "settled U p (with_blanks U p ls)"
  by (induction ls arbitrary: p) (simp_all add: blank_LF not_item_LF)

lemma with_blanks_settled: "settled U p ls \<Longrightarrow> with_blanks U p ls = ls"
  by (induction ls arbitrary: p) auto

lemma scan_lines_idem:
  "scan_lines U (fst (scan_lines U lines)) = (fst (scan_lines U lines), False)"
  by (simp add: scan_lines_eq settled_with_blanks with_blanks_settled)

lemma triggers_at:
  "triggers U (pre @ l # ls) (length pre) = (is_list_item U l \<and> \<not> blank U (prev_of pre))"
proof (cases "pre = []")
  case True
  then show ?thesis by (simp add: triggers_def prev_of_def blank_Nil)
next
  case False
  then have "(pre @ l # ls) ! (length pre - 1) = last pre"
    by (simp add: nth_append last_conv_nth)
  with False show ?thesis
    by (simp add: triggers_def prev_of_def)
qed

lemma with_blanks_pieces:
  "with_blanks U (prev_of pre) ls =
   concat (map (piece U (pre @ ls)) [length pre..<length pre + length ls])"
proof (induction ls arbitrary: pre)
  case Nil
  show ?case by simp
next
  case (Cons l ls)
  have "with_blanks U (prev_of (pre @ [l])) ls =
        concat (map (piece U ((pre @ [l]) @ ls)) [length (pre @ [l])..<length (pre @ [l]) + length ls])"
    by (rule Cons.IH)
  then have rest: "with_blanks U l ls =
        concat (map (piece U (pre @ l # ls)) [Suc (length pre)..<Suc (length pre + length ls)])"
    by (simp add: prev_of_def)
  have first: "piece U (pre @ l # ls) (length pre) =
        (if is_list_item U l \<and> \<not> blank U (prev_of pre) then [[LF], l] else [l])"
    by (simp add: piece_def triggers_at)
  have "[length pre..<length pre + length (l # ls)] =
        length pre # [Suc (length pre)..<Suc (length pre + length ls)]"
    using upt_conv_Cons [of "length pre" "Suc (length pre + length ls)"] by simp
  then show ?case
    by (simp add: rest first)
qed

lemma scan_lines_pieces:
  "fst (scan_lines U lines) = concat (map (piece U lines) [0..<length lines])"
  using with_blanks_pieces [of U "[]" lines]
  by (simp add: scan_lines_eq prev_of_def)

lemma settled_iff:
  "settled U p ls =
   (\<forall>j<length ls. \<not> (is_list_item U (ls ! j) \<and> \<not> blank U ((p # ls) ! j)))"
proof (induction ls arbitrary: p)
  case Nil
  show ?case by simp
next
  case (Cons l ls)
  show ?case
    by (simp add: Cons.IH All_less_Suc2)
qed

lemma length_pieces:
  "length (concat (map (piece U lines) [0..<i])) = i + length (filter (triggers U lines) [0..<i])"
  by (induction i) (simp_all add: piece_def)

lemma pieces_split:
  assumes "i < length lines"
  shows "fst (scan_lines U lines) =
         concat (map (piece U lines) [0..<i]) @ piece U lines i @
         concat (map (piece U lines) [Suc i..<length lines])"
proof -
  have "[0..<length lines] = [0..<i] @ i # [Suc i..<length lines]"
    using assms upt_add_eq_append [of 0 i "length lines - i"] upt_conv_Cons [of i "length lines"]
    by simp
  then show ?thesis
    by (simp add: scan_lines_pieces)
qed

lemma new_pos_eq:
  "new_pos U lines i =
   length (concat (map (piece U lines) [0..<i])) + (if triggers U lines i then 1 else 0)"
  by (simp add: new_pos_def length_pieces)

lemma nth_new_pos:
  assumes "i < length lines"
  shows "fst (scan_lines U lines) ! new_pos U lines i = lines ! i"
  by (simp add: pieces_split [OF assms] new_pos_eq nth_append piece_def)

lemma nth_before_new_pos:
  assumes "i < length lines" and "triggers U lines i"
  shows "fst (scan_lines U lines) ! (new_pos U lines i - 1) = [LF]"
  using assms(2) by (simp add: pieces_split [OF assms(1)] new_pos_eq nth_append piece_def)

lemma new_pos_0: "new_pos U lines 0 = 0"
  by (simp add: new_pos_def triggers_def)

lemma new_pos_Suc:
  "new_pos U lines (Suc i) =
   new_pos U lines i + (if triggers U lines (Suc i) then 2 else 1)"
  by (simp add: new_pos_def)

lemma new_pos_step:
  "0 < i \<Longrightarrow> new_pos U lines i =
     new_pos U lines (i - 1) + (if triggers U lines i then 2 else 1)"
  using new_pos_Suc [of U lines "i - 1"] by simp

lemma length_scan_lines:
  "length (fst (scan_lines U lines)) =
   length lines + length (filter (triggers U lines) [0..<length lines])"
  using length_pieces [of U lines "length lines"] by (simp add: scan_lines_pieces)

lemma scan_lines_invariant:
  assumes "j < length (fst (scan_lines U lines))" and "0 < j"
    and "is_list_item U (fst (scan_lines U lines) ! j)"
  shows "blank U (fst (scan_lines U lines) ! (j - 1))"
proof -
  let ?out = "fst (scan_lines U lines)"
  have "settled U [] ?out"
    by (simp add: scan_lines_eq settled_with_blanks)
  with assms(1) have "\<not> (is_list_item U (?out ! j) \<and> \<not> blank U (([] # ?out) ! j))"
    unfolding settled_iff by blast
  with assms(2,3) show ?thesis
    by (simp add: nth_Cons')
qed

lemma blank_iff: "blank U s = (dropWhile (isspace U) s = [])"
proof
  assume "blank U s"
  then have all: "\<forall>c\<in>set (dropWhile (isspace U) s). isspace U c"
    by (simp add: blank_def strip_def)
  show "dropWhile (isspace U) s = []"
  proof (rule ccontr)
    assume ne: "dropWhile (isspace U) s \<noteq> []"
    then have "\<not> isspace U (hd (dropWhile (isspace U) s))"
      by (rule hd_dropWhile)
    moreover from ne all have "isspace U (hd (dropWhile (isspace U) s))"
      by (meson hd_in_set)
    ultimately show False by simp
  qed
next
  assume d: "dropWhile (isspace U) s = []"
  show "blank U s"
    unfolding blank_def strip_def d by simp
qed

lemma list_item_not_blank:
  assumes "is_list_item U l"
  shows "\<not> blank U l"
proof
  assume "blank U l"
  then have d: "dropWhile (isspace U) l = []"
    by (simp only: blank_iff)
  have "\<not> spec_list_item U l"
    unfolding spec_list_item_def d by simp
  with assms show False
    by (simp only: list_item_iff)
qed

lemma scan_lines_unchanged:
  assumes "\<forall>i. 0 < i \<and> i < length lines \<longrightarrow> \<not> is_list_item U (lines ! i)"
  shows "scan_lines U lines = (lines, False)"
proof -
  have "settled U [] lines"
    unfolding settled_iff
  proof (intro allI impI)
    fix j assume "j < length lines"
    with assms show "\<not> (is_list_item U (lines ! j) \<and> \<not> blank U (([] # lines) ! j))"
      by (cases j) (simp_all add: blank_Nil)
  qed
  then show ?thesis
    by (simp add: scan_lines_eq with_blanks_settled)
qed

section \<open>Properties of reading and writing\<close>

lemma concat_readlines: "concat (readlines s) = s"
  by (induction s) (auto split: list.splits)

lemma line_seq_Cons:
  "line_seq (l # ls) =
   (l \<noteq> [] \<and> LF \<notin> set (butlast l) \<and> (ls = [] \<or> last l = LF) \<and> line_seq ls)"
  by (cases ls) auto

lemma line_seq_readlines: "line_seq (readlines s)"
proof (induction s)
  case Nil
  show ?case by simp
next
  case (Cons c s)
  show ?case
  proof (cases "c = LF")
    case True
    with Cons show ?thesis by (simp add: line_seq_Cons)
  next
    case False
    with Cons show ?thesis
      by (cases "readlines s") (auto simp: line_seq_Cons)
  qed
qed

lemma readlines_line:
  "l \<noteq> [] \<Longrightarrow> LF \<notin> set (butlast l) \<Longrightarrow> last l = LF \<Longrightarrow> readlines (l @ s) = l # readlines s"
proof (induction l)
  case Nil
  then show ?case by simp
next
  case (Cons c l)
  show ?case
  proof (cases "l = []")
    case True
    with Cons.prems show ?thesis by simp
  next
    case False
    with Cons.prems have "c \<noteq> LF" "LF \<notin> set (butlast l)" "last l = LF"
      by auto
    with False Cons.IH show ?thesis by simp
  qed
qed

lemma readlines_last_line:
  "l \<noteq> [] \<Longrightarrow> LF \<notin> set (butlast l) \<Longrightarrow> readlines l = [l]"
proof (induction l)
  case Nil
  then show ?case by simp
next
  case (Cons c l)
  show ?case
  proof (cases "l = []")
    case True
    then show ?thesis by simp
  next
    case False
    with Cons.prems have "c \<noteq> LF" "LF \<notin> set (butlast l)"
      by auto
    with False Cons.IH show ?thesis by simp
  qed
qed

lemma readlines_concat: "line_seq ls \<Longrightarrow> readlines (concat ls) = ls"
proof (induction ls rule: line_seq.induct)
  case 1
  show ?case by simp
next
  case (2 l)
  then show ?case by (simp add: readlines_last_line)
next
  case (3 l l' ls)
  then show ?case by (simp add: readlines_line)
qed

lemma with_blanks_Nil_iff: "with_blanks U p ls = [] \<longleftrightarrow> ls = []"
  by (cases ls) auto

lemma line_seq_with_blanks: "line_seq ls \<Longrightarrow> line_seq (with_blanks U p ls)"
  by (induction ls arbitrary: p) (auto simp: line_seq_Cons with_blanks_Nil_iff)

lemma no_CR_universal_newlines: "CR \<notin> set (universal_newlines s)"
  by (induction s rule: universal_newlines.induct) (auto simp: CR_def LF_def)

lemma universal_newlines_id: "CR \<notin> set s \<Longrightarrow> universal_newlines s = s"
  by (induction s rule: universal_newlines.induct) auto

lemma length_universal_newlines: "length (universal_newlines s) \<le> length s"
  by (induction s rule: universal_newlines.induct) auto

lemma set_with_blanks:
  "set (concat (with_blanks U p ls)) \<subseteq> insert LF (set (concat ls))"
  by (induction ls arbitrary: p) auto

lemma no_CR_with_blanks:
  "CR \<notin> set (concat ls) \<Longrightarrow> CR \<notin> set (concat (with_blanks U p ls))"
  using set_with_blanks [of U p ls] by (auto simp: CR_def LF_def)

lemma length_with_blanks:
  "\<not> settled U p ls \<Longrightarrow> length (concat ls) < length (concat (with_blanks U p ls))"
  "length (concat ls) \<le> length (concat (with_blanks U p ls))"
  by (induction ls arbitrary: p) (auto simp: le_imp_less_Suc intro: le_SucI)

text \<open>What the file holds after a rewrite is read back as the lines that were written.\<close>

lemma reread:
  assumes ls_def: "ls = with_blanks U [] (readlines (universal_newlines s))"
  shows "readlines (universal_newlines (writelines ls)) = ls"
proof -
  have "CR \<notin> set (concat (readlines (universal_newlines s)))"
    by (simp add: concat_readlines no_CR_universal_newlines)
  then have "CR \<notin> set (concat ls)"
    unfolding ls_def by (rule no_CR_with_blanks)
  then have "universal_newlines (writelines ls) = concat ls"
    by (simp add: writelines_def universal_newlines_id)
  moreover have "line_seq ls"
    unfolding ls_def by (intro line_seq_with_blanks line_seq_readlines)
  ultimately show ?thesis
    by (simp add: readlines_concat)
qed

lemma rewrite_differs:
  assumes "\<not> settled U [] (readlines (universal_newlines s))"
  shows "writelines (with_blanks U [] (readlines (universal_newlines s))) \<noteq> s"
proof
  let ?ls = "readlines (universal_newlines s)"
  assume eq: "writelines (with_blanks U [] ?ls) = s"
  have "CR \<notin> set (concat ?ls)"
    by (simp add: concat_readlines no_CR_universal_newlines)
  then have "CR \<notin> set (concat (with_blanks U [] ?ls))"
    by (rule no_CR_with_blanks)
  with eq have "CR \<notin> set s"
    by (simp add: writelines_def)
  then have "concat ?ls = s"
    by (simp add: concat_readlines universal_newlines_id)
  moreover from assms have "length (concat ?ls) < length (concat (with_blanks U [] ?ls))"
    by (rule length_with_blanks)
  ultimately show False
    using eq by (simp add: writelines_def)
qed

lemma fix_md032_in_file_eq:
  "fix_md032_in_file U p st =
     (case disk st p of
        None \<Rightarrow> Inl (FileNotFoundError, logged st [Open_read p])
      | Some f \<Rightarrow>
          if \<not> readable f then Inl (PermissionError, logged st [Open_read p])
          else (case contents f of
                  Undecodable \<Rightarrow> Inl (UnicodeDecodeError, logged st [Open_read p])
                | Utf8 s \<Rightarrow>
                    if settled U [] (readlines (universal_newlines s))
                    then Inr (False, logged st [Open_read p])
                    else if \<not> writable f
                    then Inl (PermissionError, logged st [Open_read p, Open_write p])
                    else Inr (True, rewritten st p f
                           (with_blanks U [] (readlines (universal_newlines s))))))"
  by (simp add: fix_md032_in_file_def open_read_def open_write_def scan_lines_eq logged_def
      rewritten_def Let_def split: option.splits contents.splits)

section \<open>Properties of the walk\<close>

lemma process_all_append:
  "process_all U (ps @ qs) st =
     (case process_all U ps st of Inl e \<Rightarrow> Inl e | Inr st' \<Rightarrow> process_all U qs st')"
  by (induction ps arbitrary: st) (auto split: sum.splits)

lemma files_loop_eq:
  "files_loop U root files st =
   process_all U (map (os_path_join root) (filter (\<lambda>file. endswith file (ustr ''.md'')) files)) st"
  by (induction files arbitrary: st) (auto split: sum.splits)

lemma walk_loop_eq: "walk_loop U w st = process_all U (selected w) st"
proof (induction w arbitrary: st)
  case Nil
  show ?case by (simp add: selected_def)
next
  case (Cons t w)
  obtain root dirs files where t: "t = (root, dirs, files)"
    by (cases t)
  have sel: "selected (t # w) =
      map (os_path_join root) (filter (\<lambda>file. endswith file (ustr ''.md'')) files) @ selected w"
    by (simp add: selected_def t)
  show ?case
    unfolding sel process_all_append
    by (simp add: t files_loop_eq Cons.IH split: sum.splits)
qed

lemma main_eq: "main U docs st = process_all U (selected (os_walk_docs docs)) st"
  by (simp add: main_def walk_loop_eq)

lemma fix_good:
  assumes "good U st p"
  shows "fix_md032_in_file U p st = Inr (False, logged st [Open_read p])"
  using assms unfolding fix_md032_in_file_eq good_def
  by (auto split: option.splits contents.splits)

lemma fix_makes_good:
  assumes "fix_md032_in_file U p st = Inr (b, st')"
  shows "good U st' p"
  using assms unfolding fix_md032_in_file_eq good_def
  by (auto simp: logged_def rewritten_def reread scan_lines_eq settled_with_blanks
      with_blanks_settled split: option.splits contents.splits if_splits)

lemma fix_other:
  assumes "fix_md032_in_file U p st = Inr (b, st')" and "q \<noteq> p"
  shows "disk st' q = disk st q"
  using assms unfolding fix_md032_in_file_eq
  by (auto simp: logged_def rewritten_def split: option.splits contents.splits if_splits)

lemma fix_keeps_good:
  assumes "fix_md032_in_file U p st = Inr (b, st')" and "good U st q"
  shows "good U st' q"
proof (cases "q = p")
  case True
  with assms(1) show ?thesis by (simp add: fix_makes_good)
next
  case False
  with assms(1) have "disk st' q = disk st q" by (rule fix_other)
  with assms(2) show ?thesis by (simp add: good_def)
qed

lemma process_all_keeps_good:
  "process_all U ps st = Inr st' \<Longrightarrow> good U st q \<Longrightarrow> good U st' q"
proof (induction ps arbitrary: st)
  case Nil
  then show ?case by simp
next
  case (Cons p ps)
  from Cons.prems(1) obtain b st1 where
    1: "fix_md032_in_file U p st = Inr (b, st1)" and 2: "process_all U ps st1 = Inr st'"
    by (auto split: sum.splits)
  from 1 Cons.prems(2) have "good U st1 q" by (rule fix_keeps_good)
  with 2 show ?case by (rule Cons.IH)
qed

lemma process_all_makes_good:
  "process_all U ps st = Inr st' \<Longrightarrow> p \<in> set ps \<Longrightarrow> good U st' p"
proof (induction ps arbitrary: st)
  case Nil
  then show ?case by simp
next
  case (Cons a ps)
  from Cons.prems(1) obtain b st1 where
    1: "fix_md032_in_file U a st = Inr (b, st1)" and 2: "process_all U ps st1 = Inr st'"
    by (auto split: sum.splits)
  show ?case
  proof (cases "p = a")
    case True
    from 1 have "good U st1 a" by (rule fix_makes_good)
    with 2 True show ?thesis by (simp add: process_all_keeps_good)
  next
    case False
    with Cons.prems(2) have "p \<in> set ps" by simp
    with 2 show ?thesis by (rule Cons.IH)
  qed
qed

lemma good_logged: "good U (logged st evs) p = good U st p"
  by (simp add: good_def logged_def)

lemma logged_logged: "logged (logged st xs) ys = logged st (xs @ ys)"
  by (simp add: logged_def)

lemma process_all_good:
  "(\<And>p. p \<in> set ps \<Longrightarrow> good U st p) \<Longrightarrow>
   process_all U ps st = Inr (logged st (map Open_read ps))"
proof (induction ps arbitrary: st)
  case Nil
  show ?case by (simp add: logged_def)
next
  case (Cons a ps)
  have "process_all U ps (logged st [Open_read a]) =
        Inr (logged (logged st [Open_read a]) (map Open_read ps))"
    by (rule Cons.IH) (simp add: good_logged Cons.prems)
  then show ?case
    by (simp add: fix_good Cons.prems logged_logged)
qed

lemma second_run:
  assumes "process_all U ps st = Inr st'"
  shows "process_all U ps st' = Inr (logged st' (map Open_read ps))"
  by (rule process_all_good) (rule process_all_makes_good [OF assms])

lemma touches_only_refl: "touches_only P st st"
  by (simp add: touches_only_def)

lemma touches_only_trans:
  assumes "touches_only P a b" and "touches_only Q b c"
  shows "touches_only (P \<union> Q) a c"
proof -
  from assms(1) obtain xs where xs: "trace b = trace a @ xs" "\<forall>e\<in>set xs. set (opened e) \<subseteq> P"
    and d1: "\<forall>q. q \<notin> P \<longrightarrow> disk b q = disk a q"
    unfolding touches_only_def by blast
  from assms(2) obtain ys where ys: "trace c = trace b @ ys" "\<forall>e\<in>set ys. set (opened e) \<subseteq> Q"
    and d2: "\<forall>q. q \<notin> Q \<longrightarrow> disk c q = disk b q"
    unfolding touches_only_def by blast
  have "trace c = trace a @ (xs @ ys)"
    using xs(1) ys(1) by simp
  moreover have "\<forall>e\<in>set (xs @ ys). set (opened e) \<subseteq> P \<union> Q"
    using xs(2) ys(2) by auto
  moreover have "\<forall>q. q \<notin> P \<union> Q \<longrightarrow> disk c q = disk a q"
    using d1 d2 by simp
  ultimately show ?thesis
    unfolding touches_only_def by blast
qed

lemma fix_touches_Inr:
  assumes "fix_md032_in_file U p st = Inr (b, st')"
  shows "touches_only {p} st st'"
  using assms unfolding fix_md032_in_file_eq touches_only_def
  by (auto simp: logged_def rewritten_def split: option.splits contents.splits if_splits)

lemma fix_touches_Inl:
  assumes "fix_md032_in_file U p st = Inl (e, st')"
  shows "touches_only {p} st st'"
  using assms unfolding fix_md032_in_file_eq touches_only_def
  by (auto simp: logged_def rewritten_def split: option.splits contents.splits if_splits)

lemma process_all_touches: "touches_only (set ps) st (final (process_all U ps st))"
proof (induction ps arbitrary: st)
  case Nil
  show ?case by (simp add: final_def touches_only_refl)
next
  case (Cons p ps)
  show ?case
  proof (cases "fix_md032_in_file U p st")
    case (Inl es)
    obtain e st' where es: "es = (e, st')" by (cases es)
    from Inl es have "touches_only {p} st st'" by (simp add: fix_touches_Inl)
    then have "touches_only ({p} \<union> set ps) st st'"
      using touches_only_trans [OF _ touches_only_refl] by blast
    with Inl es show ?thesis by (simp add: final_def)
  next
    case (Inr bs)
    obtain b st1 where bs: "bs = (b, st1)" by (cases bs)
    from Inr bs have "touches_only {p} st st1" by (simp add: fix_touches_Inr)
    then have "touches_only ({p} \<union> set ps) st (final (process_all U ps st1))"
      using Cons.IH by (rule touches_only_trans)
    with Inr bs show ?thesis by simp
  qed
qed





lemma read_error:
  assumes "open_read p st = Inl (e, st')"
  shows "fix_md032_in_file U p st = Inl (e, st')"
  using assms by (simp add: fix_md032_in_file_def)

lemma open_read_Inl:
  assumes "open_read p st = Inl (e, st')"
  shows "st' = logged st [Open_read p]"
  using assms
  by (auto simp: open_read_def logged_def Let_def split: option.splits if_splits contents.splits)

lemma process_all_read_error:
  assumes "process_all U before st = Inr st1" and "open_read p st1 = Inl (e, st2)"
  shows "process_all U (before @ p # later) st = Inl (e, st2)"
  using assms by (simp add: process_all_append read_error)

lemma printed_logged: "printed (logged st evs) = printed st @ concat (map printed_by evs)"
  by (simp add: printed_def logged_def)







lemma settled_triggers:
  "settled U [] lines = (\<forall>i<length lines. \<not> triggers U lines i)"
proof -
  have "(is_list_item U (lines ! j) \<and> \<not> blank U (([] # lines) ! j)) = triggers U lines j" for j
    by (cases j) (simp_all add: triggers_def blank_Nil)
  then show ?thesis
    by (simp add: settled_iff)
qed

section \<open>The examples, evaluated\<close>

lemmas eval_defs = ustr_def is_list_item_def re_match_def bullet_rx_def number_rx_def
  isspace_def isdecimal_def blank_def strip_def LF_def CR_def

lemma ex_readlines: "readlines (universal_newlines ex_input) = ex_lines"
  by (simp add: ex_input_def ex_lines_def ustr_def LF_def CR_def)

lemma ex_item1: "is_list_item U (ustr ''- item one\<newline>'')"
  by (simp add: eval_defs)

lemma ex_item2: "is_list_item U (ustr ''- item two\<newline>'')"
  by (simp add: eval_defs)

lemma ex_not_item: "\<not> is_list_item U (ustr ''Some text\<newline>'')"
  by (simp add: eval_defs)

lemma ex_blank: "\<not> blank U (ustr ''Some text\<newline>'')" "\<not> blank U (ustr ''- item one\<newline>'')"
  by (simp_all add: eval_defs)

lemma ex_with_blanks:
  "with_blanks U [] ex_lines =
   [ustr ''Some text\<newline>'', [LF], ustr ''- item one\<newline>'', [LF], ustr ''- item two\<newline>'']"
  by (simp add: ex_lines_def ex_item1 ex_item2 ex_not_item ex_blank blank_Nil)

lemma ex_scan:
  "scan_lines U ex_lines =
   ([ustr ''Some text\<newline>'', [LF], ustr ''- item one\<newline>'', [LF], ustr ''- item two\<newline>''], True)"
  by (simp add: scan_lines_eq ex_with_blanks)
     (simp add: ex_lines_def ex_item1 ex_item2 ex_not_item ex_blank blank_Nil)

lemma ex_written: "writelines (fst (scan_lines U ex_lines)) = ex_output"
  by (simp add: ex_scan writelines_def ex_output_def ustr_def LF_def)

lemma ex_selected:
  "selected (os_walk_docs (Some ex_tree)) = [ustr ''docs/a.md'', ustr ''docs/sub/b.md'']"
  by (simp add: selected_def os_walk_docs_def ex_tree_def os_path_join_def startswith_def
      endswith_def sep_def ustr_def)

lemma ex_triggers:
  "\<not> triggers U ex_lines 0" "triggers U ex_lines 1" "triggers U ex_lines 2"
  by (simp_all add: triggers_def ex_lines_def ex_item1 ex_item2 ex_not_item ex_blank)

lemma ex_new_pos:
  "new_pos U ex_lines 0 = 0" "new_pos U ex_lines 1 = 2" "new_pos U ex_lines 2 = 4"
  using ex_triggers [of U]
  by (simp_all add: new_pos_def upt_rec_numeral numeral_2_eq_2)

lemma ex_settled_item: "settled U [] (readlines (universal_newlines (ustr ''- item\<newline>'')))"
  by (simp add: ustr_def LF_def CR_def blank_Nil)

lemma ex_not_settled: "\<not> settled U [] ex_lines"
  using ex_scan [of U] by (simp add: scan_lines_eq)

lemma ustr_inj: "(ustr a = ustr b) = (a = b)"
  by (simp add: ustr_def inj_of_char inj_map_eq_map)

lemma ex_disk:
  "disk ex_state (ustr ''docs/a.md'') = Some (file_of ex_input)"
  "disk ex_state (ustr ''docs/sub/b.md'') = Some (file_of (ustr ''- item\<newline>''))"
  by (simp_all add: ex_state_def ustr_inj)

lemma ex_trace: "trace ex_state = []"
  by (simp add: ex_state_def)

lemma ex_fix_a: "fix_md032_in_file U (ustr ''docs/a.md'') ex_state = Inr (True, ex_mid)"
proof -
  have "fix_md032_in_file U (ustr ''docs/a.md'') ex_state =
      Inr (True, rewritten ex_state (ustr ''docs/a.md'') (file_of ex_input)
        (with_blanks U [] ex_lines))"
    by (simp add: fix_md032_in_file_eq ex_disk file_of_def ex_readlines ex_not_settled)
  moreover have "writelines (with_blanks U [] ex_lines) = ex_output"
    using ex_written [of U] by (simp add: scan_lines_eq)
  ultimately show ?thesis
    by (simp add: rewritten_def file_of_def ex_mid_def ex_trace)
qed

lemma ex_fix_b: "fix_md032_in_file U (ustr ''docs/sub/b.md'') ex_mid = Inr (False, ex_after)"
  by (simp add: fix_md032_in_file_eq ex_mid_def ex_disk ustr_inj file_of_def
      ex_settled_item logged_def ex_after_def)

lemma ex_main: "main U (Some ex_tree) ex_state = Inr ex_after"
  by (simp add: main_eq ex_selected ex_fix_a ex_fix_b)

lemma printed_reads: "printed (logged st (map Open_read ps)) = printed st"
  by (simp add: printed_logged o_def)

lemma crlf_lines:
  "readlines (universal_newlines crlf_input) = [ustr ''Some text\<newline>'', ustr ''- item\<newline>'']"
  by (simp add: crlf_input_def ustr_def LF_def CR_def)

lemma crlf_item: "is_list_item U (ustr ''- item\<newline>'')"
  by (simp add: eval_defs)

lemma crlf_written:
  "writelines [ustr ''Some text\<newline>'', [LF], ustr ''- item\<newline>''] = crlf_output"
  by (simp add: writelines_def crlf_output_def ustr_def LF_def)

lemma crlf_fix:
  "fix_md032_in_file U (ustr ''docs/a.md'') crlf_state = Inr (True, crlf_after)"
proof -
  have "fix_md032_in_file U (ustr ''docs/a.md'') crlf_state =
      Inr (True, rewritten crlf_state (ustr ''docs/a.md'') (file_of crlf_input)
        [ustr ''Some text\<newline>'', [LF], ustr ''- item\<newline>''])"
    by (simp add: fix_md032_in_file_eq crlf_state_def file_of_def crlf_lines crlf_item
        ex_not_item ex_blank blank_Nil)
  then show ?thesis
    by (simp add: rewritten_def crlf_written crlf_after_def crlf_state_def file_of_def)
qed

lemma crlf_triggers:
  "triggers U [ustr ''Some text\<newline>'', ustr ''- item\<newline>''] 1"
  by (simp add: triggers_def crlf_item ex_blank)



lemma bad_selected:
  "selected (os_walk_docs (Some bad_tree)) =
   [ustr ''docs/a.md''] @ ustr ''docs/bad.md'' # [ustr ''docs/c.md'']"
  by (simp add: selected_def os_walk_docs_def bad_tree_def os_path_join_def startswith_def
      endswith_def sep_def ustr_def)

lemma bad_disk:
  "disk bad_state (ustr ''docs/a.md'') = Some (file_of ex_input)"
  "disk bad_state (ustr ''docs/c.md'') = Some (file_of ex_input)"
  by (simp_all add: bad_state_def ustr_inj)

lemma bad_trace: "trace bad_state = []"
  by (simp add: bad_state_def)

lemma bad_fix_a: "fix_md032_in_file U (ustr ''docs/a.md'') bad_state = Inr (True, bad_mid)"
proof -
  have "fix_md032_in_file U (ustr ''docs/a.md'') bad_state =
      Inr (True, rewritten bad_state (ustr ''docs/a.md'') (file_of ex_input)
        (with_blanks U [] ex_lines))"
    by (simp add: fix_md032_in_file_eq bad_disk file_of_def ex_readlines ex_not_settled)
  moreover have "writelines (with_blanks U [] ex_lines) = ex_output"
    using ex_written [of U] by (simp add: scan_lines_eq)
  ultimately show ?thesis
    by (simp add: rewritten_def file_of_def bad_mid_def bad_trace)
qed

lemma bad_before: "process_all U [ustr ''docs/a.md''] bad_state = Inr bad_mid"
  by (simp add: bad_fix_a)

lemma bad_read:
  "open_read (ustr ''docs/bad.md'') bad_mid = Inl (UnicodeDecodeError, bad_after)"
  by (simp add: open_read_def bad_mid_def bad_state_def bad_after_def ustr_inj)

section \<open>The insertion of blank lines\<close>

text \<open>
  Claim C1. The result of the scan is the input lines in their order, each unchanged, with
  exactly one line holding a single newline put immediately before every line that is a
  list item at an index \<open>i > 0\<close> and whose predecessor is not blank, and nothing else: line
  \<open>i\<close> is found at \<open>new_pos i\<close>, these positions increase by one, or by two where a line
  was inserted, and the inserted line is at \<open>new_pos i - 1\<close>. Consequently every list item
  at a position \<open>j > 0\<close> of the result has a blank line at \<open>j - 1\<close>.
\<close>

theorem C1_insertion:
  assumes "out = fst (scan_lines U lines)"
  shows "out = concat (map (\<lambda>i. if triggers U lines i then [[LF], lines ! i] else [lines ! i])
                 [0..<length lines]) \<and>
         length out = length lines + length (filter (triggers U lines) [0..<length lines]) \<and>
         new_pos U lines 0 = 0 \<and>
         (\<forall>i<length lines.
            out ! new_pos U lines i = lines ! i \<and>
            (0 < i \<longrightarrow> new_pos U lines i =
               new_pos U lines (i - 1) + (if triggers U lines i then 2 else 1)) \<and>
            (triggers U lines i \<longrightarrow> out ! (new_pos U lines i - 1) = [LF])) \<and>
         (\<forall>j<length out. 0 < j \<and> is_list_item U (out ! j) \<longrightarrow> blank U (out ! (j - 1)))"
proof (intro conjI allI impI)
  have "piece U lines = (\<lambda>i. if triggers U lines i then [[LF], lines ! i] else [lines ! i])"
    by (rule ext) (simp add: piece_def)
  then show "out = concat (map (\<lambda>i. if triggers U lines i then [[LF], lines ! i]
      else [lines ! i]) [0..<length lines])"
    using scan_lines_pieces [of U lines] assms by simp
  show "length out = length lines + length (filter (triggers U lines) [0..<length lines])"
    unfolding assms by (rule length_scan_lines)
  show "new_pos U lines 0 = 0"
    by (rule new_pos_0)
next
  fix i assume "i < length lines"
  then show "out ! new_pos U lines i = lines ! i"
    unfolding assms by (rule nth_new_pos)
next
  fix i :: nat assume "0 < i"
  then show "new_pos U lines i =
      new_pos U lines (i - 1) + (if triggers U lines i then 2 else 1)"
    by (rule new_pos_step)
next
  fix i assume "i < length lines" "triggers U lines i"
  then show "out ! (new_pos U lines i - 1) = [LF]"
    unfolding assms by (rule nth_before_new_pos)
next
  fix j assume "j < length out" "0 < j \<and> is_list_item U (out ! j)"
  then show "blank U (out ! (j - 1))"
    unfolding assms using scan_lines_invariant by blast
qed

theorem C1_insertion_witness:
  "triggers ucd_excerpt ex_lines 1 \<and>
   new_pos ucd_excerpt ex_lines 1 = 2 \<and>
   fst (scan_lines ucd_excerpt ex_lines) ! 2 = ustr ''- item one\<newline>'' \<and>
   fst (scan_lines ucd_excerpt ex_lines) ! 1 = [LF] \<and>
   new_pos ucd_excerpt ex_lines 0 = 0 \<and>
   length (fst (scan_lines ucd_excerpt ex_lines)) = 5 \<and>
   is_list_item ucd_excerpt (fst (scan_lines ucd_excerpt ex_lines) ! 4) \<and>
   blank ucd_excerpt (fst (scan_lines ucd_excerpt ex_lines) ! 3)"
proof -
  let ?out = "fst (scan_lines ucd_excerpt ex_lines)"
  note inst = C1_insertion [OF refl, of ucd_excerpt ex_lines]
  have len: "(1::nat) < length ex_lines"
    by (simp add: ex_lines_def)
  have t: "triggers ucd_excerpt ex_lines 1"
    by (rule ex_triggers)
  have p1: "new_pos ucd_excerpt ex_lines 1 = 2"
    by (rule ex_new_pos)
  have l1: "ex_lines ! 1 = ustr ''- item one\<newline>''"
    by (simp add: ex_lines_def)
  from inst len t have "?out ! new_pos ucd_excerpt ex_lines 1 = ex_lines ! 1"
    and "?out ! (new_pos ucd_excerpt ex_lines 1 - 1) = [LF]"
    by blast+
  then have a: "?out ! 2 = ustr ''- item one\<newline>''" and b: "?out ! (2 - 1) = [LF]"
    unfolding p1 l1 .
  have c: "length ?out = 5"
    by (simp add: ex_scan)
  have item: "is_list_item ucd_excerpt (?out ! 4)"
    by (simp add: ex_scan ex_item2)
  from inst have inv: "\<forall>j<length ?out. 0 < j \<and> is_list_item ucd_excerpt (?out ! j)
      \<longrightarrow> blank ucd_excerpt (?out ! (j - 1))"
    by blast
  from inv [rule_format, of 4] c item have d: "blank ucd_excerpt (?out ! 3)"
    by simp
  from b have b': "?out ! 1 = [LF]"
    by simp
  from t p1 a b' ex_new_pos(1) c item d show ?thesis
    by blast
qed

text \<open>
  Claim C3. A list item is never blank, so any non-blank predecessor triggers the
  insertion, a list item like any other line: a line is inserted before a list item at
  \<open>i > 0\<close> whose predecessor is not blank, and between two adjacent list items. The
  scenario's input \<open>Some text\n- item one\n- item two\n\<close> becomes
  \<open>Some text\n\n- item one\n\n- item two\n\<close>, as lines and as the file \<open>docs/a.md\<close>.
\<close>

theorem C3_any_nonblank_predecessor:
  "(is_list_item U l \<longrightarrow> \<not> blank U l) \<and>
   (i < length lines \<and> 0 < i \<and> is_list_item U (lines ! i) \<and> \<not> blank U (lines ! (i - 1)) \<longrightarrow>
      fst (scan_lines U lines) ! new_pos U lines i = lines ! i \<and>
      fst (scan_lines U lines) ! (new_pos U lines i - 1) = [LF]) \<and>
   (Suc k < length lines \<and> is_list_item U (lines ! k) \<and> is_list_item U (lines ! Suc k) \<longrightarrow>
      fst (scan_lines U lines) ! (new_pos U lines (Suc k) - 2) = lines ! k \<and>
      fst (scan_lines U lines) ! (new_pos U lines (Suc k) - 1) = [LF] \<and>
      fst (scan_lines U lines) ! new_pos U lines (Suc k) = lines ! Suc k) \<and>
   writelines (fst (scan_lines U (readlines (universal_newlines ex_input)))) = ex_output \<and>
   fix_md032_in_file U (ustr ''docs/a.md'') ex_state = Inr (True, ex_mid)"
proof (intro conjI impI)
  assume "is_list_item U l"
  then show "\<not> blank U l" by (rule list_item_not_blank)
next
  assume a: "i < length lines \<and> 0 < i \<and> is_list_item U (lines ! i) \<and> \<not> blank U (lines ! (i - 1))"
  then have t: "triggers U lines i" by (simp add: triggers_def)
  from a show "fst (scan_lines U lines) ! new_pos U lines i = lines ! i"
    by (simp add: nth_new_pos)
  from a t show "fst (scan_lines U lines) ! (new_pos U lines i - 1) = [LF]"
    using nth_before_new_pos by blast
next
  assume a: "Suc k < length lines \<and> is_list_item U (lines ! k) \<and> is_list_item U (lines ! Suc k)"
  then have "\<not> blank U (lines ! k)" by (simp add: list_item_not_blank)
  with a have t: "triggers U lines (Suc k)" by (simp add: triggers_def)
  then have p: "new_pos U lines (Suc k) = new_pos U lines k + 2"
    by (simp add: new_pos_Suc)
  from a have "k < length lines" by simp
  then have "fst (scan_lines U lines) ! new_pos U lines k = lines ! k"
    by (rule nth_new_pos)
  then show "fst (scan_lines U lines) ! (new_pos U lines (Suc k) - 2) = lines ! k"
    by (simp add: p)
  from a t show "fst (scan_lines U lines) ! (new_pos U lines (Suc k) - 1) = [LF]"
    using nth_before_new_pos by blast
  from a show "fst (scan_lines U lines) ! new_pos U lines (Suc k) = lines ! Suc k"
    by (simp add: nth_new_pos)
next
  show "writelines (fst (scan_lines U (readlines (universal_newlines ex_input)))) = ex_output"
    by (simp only: ex_readlines ex_written)
  show "fix_md032_in_file U (ustr ''docs/a.md'') ex_state = Inr (True, ex_mid)"
    by (rule ex_fix_a)
qed

theorem C3_any_nonblank_predecessor_witness:
  "is_list_item ucd_excerpt (ex_lines ! 1) \<and> is_list_item ucd_excerpt (ex_lines ! 2) \<and>
   \<not> blank ucd_excerpt (ex_lines ! 1) \<and>
   fst (scan_lines ucd_excerpt ex_lines) ! 2 = ex_lines ! 1 \<and>
   fst (scan_lines ucd_excerpt ex_lines) ! 3 = [LF] \<and>
   fst (scan_lines ucd_excerpt ex_lines) ! 4 = ex_lines ! 2"
proof -
  note inst = C3_any_nonblank_predecessor
    [of ucd_excerpt "ex_lines ! 1" 2 ex_lines 1, unfolded Suc_1]
  have i1: "is_list_item ucd_excerpt (ex_lines ! 1)"
    and i2: "is_list_item ucd_excerpt (ex_lines ! 2)"
    by (simp_all add: ex_lines_def ex_item1 ex_item2)
  have len: "2 < length ex_lines"
    by (simp add: ex_lines_def)
  have p: "new_pos ucd_excerpt ex_lines 2 = 4"
    by (rule ex_new_pos)
  have arith: "(4::nat) - 2 = 2" "(4::nat) - 1 = 3"
    by simp_all
  from inst i1 have nb: "\<not> blank ucd_excerpt (ex_lines ! 1)"
    by blast
  from inst i1 i2 len have
    "fst (scan_lines ucd_excerpt ex_lines) ! (new_pos ucd_excerpt ex_lines 2 - 2) = ex_lines ! 1 \<and>
     fst (scan_lines ucd_excerpt ex_lines) ! (new_pos ucd_excerpt ex_lines 2 - 1) = [LF] \<and>
     fst (scan_lines ucd_excerpt ex_lines) ! new_pos ucd_excerpt ex_lines 2 = ex_lines ! 2"
    by blast
  then have "fst (scan_lines ucd_excerpt ex_lines) ! 2 = ex_lines ! 1 \<and>
     fst (scan_lines ucd_excerpt ex_lines) ! 3 = [LF] \<and>
     fst (scan_lines ucd_excerpt ex_lines) ! 4 = ex_lines ! 2"
    unfolding p arith .
  with i1 i2 nb show ?thesis
    by blast
qed

text \<open>
  Claim C7. At index 0 the body of the loop appends the line alone, whatever the line is.
  So when no line after the first is a list item, the scan returns the lines as they are
  and reports no modification, and the file is read and not written. The file with the
  single line \<open>- item\n\<close> is such a file.
\<close>

theorem C7_first_line:
  "loop_body U lines (0, line) (result_lines, modified) = (result_lines @ [line], modified) \<and>
   ((\<forall>i. 0 < i \<and> i < length lines \<longrightarrow> \<not> is_list_item U (lines ! i)) \<longrightarrow>
      scan_lines U lines = (lines, False)) \<and>
   (disk st p = Some f \<and> readable f \<and> contents f = Utf8 s \<and>
    (\<forall>i. 0 < i \<and> i < length (readlines (universal_newlines s)) \<longrightarrow>
          \<not> is_list_item U (readlines (universal_newlines s) ! i)) \<longrightarrow>
      fix_md032_in_file U p st = Inr (False, logged st [Open_read p])) \<and>
   scan_lines U (readlines (universal_newlines (ustr ''- item\<newline>''))) =
     ([ustr ''- item\<newline>''], False)"
proof (intro conjI impI)
  show "loop_body U lines (0, line) (result_lines, modified) = (result_lines @ [line], modified)"
    by (simp add: loop_body_def)
next
  assume "\<forall>i. 0 < i \<and> i < length lines \<longrightarrow> \<not> is_list_item U (lines ! i)"
  then show "scan_lines U lines = (lines, False)"
    by (rule scan_lines_unchanged)
next
  assume a: "disk st p = Some f \<and> readable f \<and> contents f = Utf8 s \<and>
    (\<forall>i. 0 < i \<and> i < length (readlines (universal_newlines s)) \<longrightarrow>
          \<not> is_list_item U (readlines (universal_newlines s) ! i))"
  then have "scan_lines U (readlines (universal_newlines s)) =
      (readlines (universal_newlines s), False)"
    by (intro scan_lines_unchanged) blast
  then have "settled U [] (readlines (universal_newlines s))"
    by (simp add: scan_lines_eq)
  with a show "fix_md032_in_file U p st = Inr (False, logged st [Open_read p])"
    by (simp add: fix_md032_in_file_eq)
next
  have "readlines (universal_newlines (ustr ''- item\<newline>'')) = [ustr ''- item\<newline>'']"
    by (simp add: ustr_def LF_def CR_def)
  then show "scan_lines U (readlines (universal_newlines (ustr ''- item\<newline>''))) =
      ([ustr ''- item\<newline>''], False)"
    by (simp add: scan_lines_unchanged)
qed

theorem C7_first_line_witness:
  "is_list_item ucd_excerpt (ustr ''- item\<newline>'') \<and>
   readlines (universal_newlines (ustr ''- item\<newline>'')) = [ustr ''- item\<newline>''] \<and>
   scan_lines ucd_excerpt [ustr ''- item\<newline>''] = ([ustr ''- item\<newline>''], False) \<and>
   fix_md032_in_file ucd_excerpt (ustr ''docs/a.md'') ex_first =
     Inr (False, logged ex_first [Open_read (ustr ''docs/a.md'')])"
proof -
  let ?l = "ustr ''- item\<newline>''"
  note inst = C7_first_line [of ucd_excerpt "[?l]" ?l "[]" False ex_first
      "ustr ''docs/a.md''" "file_of ?l" ?l]
  have item: "is_list_item ucd_excerpt ?l"
    by (simp add: eval_defs)
  have rl: "readlines (universal_newlines ?l) = [?l]"
    by (simp add: ustr_def LF_def CR_def)
  have only_first: "\<forall>i. 0 < i \<and> i < length [?l] \<longrightarrow> \<not> is_list_item ucd_excerpt ([?l] ! i)"
    by simp
  have fl: "disk ex_first (ustr ''docs/a.md'') = Some (file_of ?l)"
    "readable (file_of ?l)" "contents (file_of ?l) = Utf8 ?l"
    by (simp_all add: ex_first_def file_of_def)
  from inst only_first have 1: "scan_lines ucd_excerpt [?l] = ([?l], False)"
    by blast
  from inst fl only_first have 2: "fix_md032_in_file ucd_excerpt (ustr ''docs/a.md'') ex_first =
     Inr (False, logged ex_first [Open_read (ustr ''docs/a.md'')])"
    unfolding rl by blast
  from item rl 1 2 show ?thesis
    by blast
qed

section \<open>Idempotence\<close>

text \<open>
  Claim C2. The scan is idempotent: scanning its own result inserts nothing and reports no
  modification. So is the processing of a file: after a call that returned, a second call
  on the same path only reads the file and returns \<open>False\<close>. And after a run that ended
  without error, a second run only opens the selected files for reading: it writes nothing
  and prints nothing.
\<close>

theorem C2_idempotent:
  "scan_lines U (fst (scan_lines U lines)) = (fst (scan_lines U lines), False) \<and>
   (fix_md032_in_file U p st = Inr (b, st') \<longrightarrow>
      fix_md032_in_file U p st' = Inr (False, logged st' [Open_read p]) \<and>
      disk (logged st' [Open_read p]) = disk st' \<and>
      printed (logged st' [Open_read p]) = printed st') \<and>
   (main U docs st = Inr st'' \<longrightarrow>
      main U docs st'' = Inr (logged st'' (map Open_read (selected (os_walk_docs docs)))) \<and>
      disk (logged st'' (map Open_read (selected (os_walk_docs docs)))) = disk st'' \<and>
      printed (logged st'' (map Open_read (selected (os_walk_docs docs)))) = printed st'')"
proof (intro conjI impI)
  show "scan_lines U (fst (scan_lines U lines)) = (fst (scan_lines U lines), False)"
    by (rule scan_lines_idem)
next
  assume "fix_md032_in_file U p st = Inr (b, st')"
  then have "good U st' p" by (rule fix_makes_good)
  then show "fix_md032_in_file U p st' = Inr (False, logged st' [Open_read p])"
    by (rule fix_good)
next
  assume "main U docs st = Inr st''"
  then have "process_all U (selected (os_walk_docs docs)) st = Inr st''"
    by (simp only: main_eq)
  then have "process_all U (selected (os_walk_docs docs)) st'' =
      Inr (logged st'' (map Open_read (selected (os_walk_docs docs))))"
    by (rule second_run)
  then show "main U docs st'' =
      Inr (logged st'' (map Open_read (selected (os_walk_docs docs))))"
    by (simp only: main_eq)
next
  show "disk (logged st' [Open_read p]) = disk st'"
    by (simp add: logged_def)
  show "printed (logged st' [Open_read p]) = printed st'"
    using printed_reads [of st' "[p]"] by simp
  show "disk (logged st'' (map Open_read (selected (os_walk_docs docs)))) = disk st''"
    by (simp add: logged_def)
  show "printed (logged st'' (map Open_read (selected (os_walk_docs docs)))) = printed st''"
    by (rule printed_reads)
qed

theorem C2_idempotent_witness:
  "main ucd_excerpt (Some ex_tree) ex_state = Inr ex_after \<and>
   main ucd_excerpt (Some ex_tree) ex_after =
     Inr (logged ex_after [Open_read (ustr ''docs/a.md''), Open_read (ustr ''docs/sub/b.md'')]) \<and>
   fix_md032_in_file ucd_excerpt (ustr ''docs/a.md'') ex_state = Inr (True, ex_mid) \<and>
   fix_md032_in_file ucd_excerpt (ustr ''docs/a.md'') ex_mid =
     Inr (False, logged ex_mid [Open_read (ustr ''docs/a.md'')])"
proof -
  note inst = C2_idempotent [of ucd_excerpt ex_lines "ustr ''docs/a.md''" ex_state True
      ex_mid "Some ex_tree" ex_after]
  note call = inst [THEN conjunct2, THEN conjunct1]
  note run = inst [THEN conjunct2, THEN conjunct2]
  have 1: "main ucd_excerpt (Some ex_tree) ex_state = Inr ex_after"
    by (rule ex_main)
  have 2: "fix_md032_in_file ucd_excerpt (ustr ''docs/a.md'') ex_state = Inr (True, ex_mid)"
    by (rule ex_fix_a)
  from run 1 have "main ucd_excerpt (Some ex_tree) ex_after =
      Inr (logged ex_after (map Open_read (selected (os_walk_docs (Some ex_tree)))))"
    by blast
  then have 3: "main ucd_excerpt (Some ex_tree) ex_after =
      Inr (logged ex_after [Open_read (ustr ''docs/a.md''), Open_read (ustr ''docs/sub/b.md'')])"
    by (simp only: ex_selected list.map)
  from call 2 have 4: "fix_md032_in_file ucd_excerpt (ustr ''docs/a.md'') ex_mid =
      Inr (False, logged ex_mid [Open_read (ustr ''docs/a.md'')])"
    by blast
  from 1 3 2 4 show ?thesis
    by blast
qed

section \<open>What a call does to its file\<close>

text \<open>
  Claim C5 says that a rewrite keeps the original line terminators of the lines it does not
  modify. Reading in text mode has already turned \<open>\r\n\<close> into \<open>\n\<close>, and it is the lines as
  read that are written back: the file \<open>Some text\r\n- item\r\n\<close> is rewritten as
  \<open>Some text\n\n- item\n\<close>.
\<close>

theorem C5_terminators_counterexample:
  "fix_md032_in_file ucd_excerpt (ustr ''docs/a.md'') crlf_state = Inr (True, crlf_after) \<and>
   disk crlf_state (ustr ''docs/a.md'') = Some (file_of crlf_input) \<and>
   disk crlf_after (ustr ''docs/a.md'') = Some (file_of crlf_output) \<and>
   readlines crlf_input = [ustr ''Some text'' @ [CR, LF], ustr ''- item'' @ [CR, LF]] \<and>
   readlines crlf_output = [ustr ''Some text'' @ [LF], [LF], ustr ''- item'' @ [LF]] \<and>
   CR \<in> set crlf_input \<and> CR \<notin> set crlf_output"
proof (intro conjI)
  show "fix_md032_in_file ucd_excerpt (ustr ''docs/a.md'') crlf_state = Inr (True, crlf_after)"
    by (rule crlf_fix)
  show "disk crlf_state (ustr ''docs/a.md'') = Some (file_of crlf_input)"
    by (simp add: crlf_state_def)
  show "disk crlf_after (ustr ''docs/a.md'') = Some (file_of crlf_output)"
    by (simp add: crlf_after_def)
  show "readlines crlf_input = [ustr ''Some text'' @ [CR, LF], ustr ''- item'' @ [CR, LF]]"
    by (simp add: crlf_input_def ustr_def LF_def CR_def)
  show "readlines crlf_output = [ustr ''Some text'' @ [LF], [LF], ustr ''- item'' @ [LF]]"
    by (simp add: crlf_output_def ustr_def LF_def)
  show "CR \<in> set crlf_input"
    by (simp add: crlf_input_def)
  show "CR \<notin> set crlf_output"
    by (simp add: crlf_output_def ustr_def CR_def)
qed

text \<open>
  Claim C5, amended. For a file that can be read, decoded and written, with \<open>lines\<close> the
  lines as text mode reads them (\<open>\r\n\<close> and a lone \<open>\r\<close> read as \<open>\n\<close>): the scan reports a
  modification exactly when some line triggers an insertion. If none does, the file is only
  opened for reading, nothing is written or printed and the disk is as before. If one does,
  the file is overwritten with the new sequence verbatim, which differs from the old
  contents: the lines as read, each inserted line a single newline. The lines as read are
  the file's own lines, terminators included, when the file has no carriage return.
\<close>

theorem C5_rewrite_iff_insertion:
  assumes "disk st p = Some f" and "readable f" and "writable f" and "contents f = Utf8 s"
    and "lines = readlines (universal_newlines s)"
  shows "snd (scan_lines U lines) = (\<exists>i<length lines. triggers U lines i) \<and>
    (\<not> snd (scan_lines U lines) \<longrightarrow>
       fix_md032_in_file U p st = Inr (False, logged st [Open_read p]) \<and>
       disk (logged st [Open_read p]) = disk st) \<and>
    (snd (scan_lines U lines) \<longrightarrow>
       fix_md032_in_file U p st = Inr (True, rewritten st p f (fst (scan_lines U lines))) \<and>
       disk (rewritten st p f (fst (scan_lines U lines))) p =
         Some (f\<lparr>contents := Utf8 (concat (fst (scan_lines U lines)))\<rparr>) \<and>
       concat (fst (scan_lines U lines)) \<noteq> s) \<and>
    fst (scan_lines U lines) =
      concat (map (\<lambda>i. if triggers U lines i then [[LF], lines ! i] else [lines ! i])
        [0..<length lines]) \<and>
    concat lines = universal_newlines s \<and>
    (CR \<notin> set s \<longrightarrow> concat lines = s)"
proof (intro conjI impI)
  show "snd (scan_lines U lines) = (\<exists>i<length lines. triggers U lines i)"
    by (simp add: scan_lines_eq settled_triggers)
next
  assume "\<not> snd (scan_lines U lines)"
  then have "settled U [] (readlines (universal_newlines s))"
    by (simp add: scan_lines_eq assms(5))
  with assms show "fix_md032_in_file U p st = Inr (False, logged st [Open_read p])"
    by (simp add: fix_md032_in_file_eq)
  show "disk (logged st [Open_read p]) = disk st"
    by (simp add: logged_def)
next
  assume "snd (scan_lines U lines)"
  then have ns: "\<not> settled U [] (readlines (universal_newlines s))"
    by (simp add: scan_lines_eq assms(5))
  with assms show
    "fix_md032_in_file U p st = Inr (True, rewritten st p f (fst (scan_lines U lines)))"
    by (simp add: fix_md032_in_file_eq scan_lines_eq)
  show "disk (rewritten st p f (fst (scan_lines U lines))) p =
      Some (f\<lparr>contents := Utf8 (concat (fst (scan_lines U lines)))\<rparr>)"
    by (simp add: rewritten_def writelines_def)
  from ns have "writelines (with_blanks U [] (readlines (universal_newlines s))) \<noteq> s"
    by (rule rewrite_differs)
  then show "concat (fst (scan_lines U lines)) \<noteq> s"
    by (simp add: scan_lines_eq assms(5) writelines_def)
next
  have "piece U lines = (\<lambda>i. if triggers U lines i then [[LF], lines ! i] else [lines ! i])"
    by (rule ext) (simp add: piece_def)
  then show "fst (scan_lines U lines) =
      concat (map (\<lambda>i. if triggers U lines i then [[LF], lines ! i] else [lines ! i])
        [0..<length lines])"
    using scan_lines_pieces [of U lines] by simp
next
  show "concat lines = universal_newlines s"
    by (simp add: assms(5) concat_readlines)
next
  assume "CR \<notin> set s"
  then show "concat lines = s"
    by (simp add: assms(5) concat_readlines universal_newlines_id)
qed

theorem C5_rewrite_iff_insertion_witness:
  "disk crlf_state (ustr ''docs/a.md'') = Some (file_of crlf_input) \<and>
   snd (scan_lines ucd_excerpt [ustr ''Some text\<newline>'', ustr ''- item\<newline>'']) \<and>
   fix_md032_in_file ucd_excerpt (ustr ''docs/a.md'') crlf_state =
     Inr (True, rewritten crlf_state (ustr ''docs/a.md'') (file_of crlf_input)
       (fst (scan_lines ucd_excerpt [ustr ''Some text\<newline>'', ustr ''- item\<newline>'']))) \<and>
   concat (fst (scan_lines ucd_excerpt [ustr ''Some text\<newline>'', ustr ''- item\<newline>''])) \<noteq>
     crlf_input \<and>
   concat [ustr ''Some text\<newline>'', ustr ''- item\<newline>''] = universal_newlines crlf_input"
proof -
  let ?ls = "[ustr ''Some text\<newline>'', ustr ''- item\<newline>'']"
  have d: "disk crlf_state (ustr ''docs/a.md'') = Some (file_of crlf_input)"
    by (simp add: crlf_state_def)
  have f: "readable (file_of crlf_input)" "writable (file_of crlf_input)"
    "contents (file_of crlf_input) = Utf8 crlf_input"
    by (simp_all add: file_of_def)
  have l: "?ls = readlines (universal_newlines crlf_input)"
    by (simp only: crlf_lines)
  note inst = C5_rewrite_iff_insertion [OF d f l, of ucd_excerpt]
  have "\<exists>i<length ?ls. triggers ucd_excerpt ?ls i"
  proof (intro exI conjI)
    show "1 < length ?ls" by simp
    show "triggers ucd_excerpt ?ls 1" by (rule crlf_triggers)
  qed
  with inst have m: "snd (scan_lines ucd_excerpt ?ls)"
    by blast
  with inst d show ?thesis
    by blast
qed

section \<open>What a run reports\<close>




section \<open>The files a run leaves alone\<close>





section \<open>Errors\<close>

text \<open>
  Claim C9. When the files before \<open>p\<close> were processed and opening or reading \<open>p\<close> fails, the
  call on \<open>p\<close> fails with that error and so does the run: it ends there. The failed call
  has opened \<open>p\<close> for reading and done nothing else, so no file is written, \<open>p\<close> least of
  all; since the start of the run only the files before \<open>p\<close> and \<open>p\<close> were opened or
  changed, so the later ones were not processed. A file that does not decode as UTF-8
  fails with \<open>UnicodeDecodeError\<close>.
\<close>

theorem C9_read_error_propagates:
  assumes "selected (os_walk_docs docs) = before @ p # later"
    and "process_all U before st = Inr st1"
    and "open_read p st1 = Inl (e, st2)"
  shows "fix_md032_in_file U p st1 = Inl (e, st2) \<and>
         main U docs st = Inl (e, st2) \<and>
         trace st2 = trace st1 @ [Open_read p] \<and>
         disk st2 = disk st1 \<and>
         touches_only (set before \<union> {p}) st st2 \<and>
         (\<forall>f. disk st1 p = Some f \<and> readable f \<and> contents f = Undecodable \<longrightarrow>
              e = UnicodeDecodeError) \<and>
         (\<forall>f (st0::state). disk st0 p = Some f \<and> readable f \<and> contents f = Undecodable \<longrightarrow>
              open_read p st0 = Inl (UnicodeDecodeError, logged st0 [Open_read p]))"
proof (intro conjI allI impI)
  from assms(3) show f: "fix_md032_in_file U p st1 = Inl (e, st2)"
    by (rule read_error)
  from assms(2,3) have "process_all U (before @ p # later) st = Inl (e, st2)"
    by (rule process_all_read_error)
  then show "main U docs st = Inl (e, st2)"
    by (simp only: main_eq assms(1))
  from assms(3) have l: "st2 = logged st1 [Open_read p]"
    by (rule open_read_Inl)
  then show "trace st2 = trace st1 @ [Open_read p]" and "disk st2 = disk st1"
    by (simp_all add: logged_def)
  have "process_all U (before @ [p]) st = Inl (e, st2)"
    using assms(2) f by (simp add: process_all_append)
  then have "final (process_all U (before @ [p]) st) = st2"
    by (simp add: final_def)
  then show "touches_only (set before \<union> {p}) st st2"
    using process_all_touches [of "before @ [p]" st U] by simp
next
  fix f assume "disk st1 p = Some f \<and> readable f \<and> contents f = Undecodable"
  with assms(3) show "e = UnicodeDecodeError"
    by (simp add: open_read_def Let_def)
next
  fix f and st0 :: state assume "disk st0 p = Some f \<and> readable f \<and> contents f = Undecodable"
  then show "open_read p st0 = Inl (UnicodeDecodeError, logged st0 [Open_read p])"
    by (simp add: open_read_def Let_def logged_def)
qed

theorem C9_read_error_propagates_witness:
  "selected (os_walk_docs (Some bad_tree)) =
     [ustr ''docs/a.md''] @ ustr ''docs/bad.md'' # [ustr ''docs/c.md''] \<and>
   main ucd_excerpt (Some bad_tree) bad_state = Inl (UnicodeDecodeError, bad_after) \<and>
   disk bad_after = disk bad_mid \<and>
   disk bad_after (ustr ''docs/c.md'') = disk bad_state (ustr ''docs/c.md'') \<and>
   trace bad_after = trace bad_mid @ [Open_read (ustr ''docs/bad.md'')]"
proof -
  note inst = C9_read_error_propagates [OF bad_selected bad_before bad_read, of ucd_excerpt]
  note run = inst [THEN conjunct2, THEN conjunct1]
  note tr = inst [THEN conjunct2, THEN conjunct2, THEN conjunct1]
  note dk = inst [THEN conjunct2, THEN conjunct2, THEN conjunct2, THEN conjunct1]
  have c: "disk bad_after (ustr ''docs/c.md'') = disk bad_state (ustr ''docs/c.md'')"
    by (simp add: bad_after_def ustr_inj)
  show ?thesis
    by (intro conjI) (rule bad_selected run dk c tr)+
qed

end
